theory Spec2Isabelle
  imports Main "HOL-Library.AList" "HOL-Library.Multiset"
begin

section \<open>Outcomes of a call\<close>

text \<open>
  A Go call either returns, blocks its goroutine (a channel operation or a
  \<^verbatim>\<open>WaitGroup.Wait\<close> that cannot proceed), or panics. The three are kept
  apart so that "never blocks" and "never panics" are statements about values.
\<close>

datatype 'a outcome = Returns 'a | Blocks | Panics

section \<open>Interface values and their reflection\<close>

text \<open>
  The part of \<^verbatim>\<open>reflect.Type\<close> that \<^verbatim>\<open>getPkgPath\<close> reads. A
  defined type has a name and a package path; every other type that can carry
  a \<^verbatim>\<open>Close\<close> method (a struct literal embedding a closer, say) is unnamed, and
  \<^verbatim>\<open>Name\<close> and \<^verbatim>\<open>PkgPath\<close> give the empty string for it, as they do for a
  pointer type.
\<close>

datatype rtype = Defined string string | Unnamed | PtrTo rtype

datatype rkind = Ptr | OtherKind

fun Kind :: "rtype \<Rightarrow> rkind" where
  "Kind (PtrTo t) = Ptr"
| "Kind (Defined n p) = OtherKind"
| "Kind Unnamed = OtherKind"

text \<open>\<^verbatim>\<open>Elem\<close> panics on a type that has no element type.\<close>

fun Elem :: "rtype \<Rightarrow> rtype outcome" where
  "Elem (PtrTo t) = Returns t"
| "Elem (Defined n p) = Panics"
| "Elem Unnamed = Panics"

fun Name_of :: "rtype \<Rightarrow> string" where
  "Name_of (Defined n p) = n"
| "Name_of Unnamed = []"
| "Name_of (PtrTo t) = []"

fun PkgPath_of :: "rtype \<Rightarrow> string" where
  "PkgPath_of (Defined n p) = p"
| "PkgPath_of Unnamed = []"
| "PkgPath_of (PtrTo t) = []"

text \<open>
  A value of the interface type \<^verbatim>\<open>io.Closer\<close>: the nil interface, or a dynamic
  type together with a dynamic value (\<open>'v\<close> identifies the resource).
\<close>

datatype 'v io_Closer = NilIface | Iface rtype 'v

text \<open>\<^verbatim>\<open>reflect.TypeOf\<close> yields the nil \<^verbatim>\<open>Type\<close> for a nil interface value.\<close>

fun TypeOf :: "'v io_Closer \<Rightarrow> rtype option" where
  "TypeOf NilIface = None"
| "TypeOf (Iface t v) = Some t"

text \<open>
  \<^verbatim>\<open>getPkgPath\<close>, lines 90 to 96. The method call \<^verbatim>\<open>t.Kind()\<close> on the nil
  \<^verbatim>\<open>Type\<close> is a nil dereference: a runtime panic.
\<close>

definition getPkgPath :: "'v io_Closer \<Rightarrow> (string \<times> string) outcome" where
  "getPkgPath c =
     (case TypeOf c of
        None \<Rightarrow> Panics
      | Some t \<Rightarrow>
          (if Kind t = Ptr
           then (case Elem t of
                   Returns t' \<Rightarrow> Returns (Name_of t', PkgPath_of t')
                 | Blocks \<Rightarrow> Blocks
                 | Panics \<Rightarrow> Panics)
           else Returns (Name_of t, PkgPath_of t)))"

text \<open>The type whose name is reported: one pointer level is stripped.\<close>

fun stripped :: "rtype \<Rightarrow> rtype" where
  "stripped (PtrTo t) = t"
| "stripped (Defined n p) = Defined n p"
| "stripped Unnamed = Unnamed"

section \<open>Channels\<close>

text \<open>
  A buffered channel: its queue, its capacity and whether it has been closed.
  A send on a closed channel panics; on a full one it blocks. With capacity 0
  a send blocks until a receiver takes the value, which this model renders as
  "blocks" (the only channel of capacity 0 in the program has no sender). A
  receive yields \<open>None\<close> for the zero value that a closed, drained channel
  delivers.
\<close>

record 'a chan =
  buf :: "'a list"
  cap :: nat
  closed :: bool

definition make_chan :: "nat \<Rightarrow> 'a chan" where
  "make_chan n = \<lparr>buf = [], cap = n, closed = False\<rparr>"

definition chan_send :: "'a \<Rightarrow> 'a chan \<Rightarrow> 'a chan outcome" where
  "chan_send x ch =
     (if closed ch then Panics
      else if length (buf ch) < cap ch then Returns (ch\<lparr>buf := buf ch @ [x]\<rparr>)
      else Blocks)"

definition chan_recv :: "'a chan \<Rightarrow> ('a option \<times> 'a chan) outcome" where
  "chan_recv ch =
     (case buf ch of
        x # xs \<Rightarrow> Returns (Some x, ch\<lparr>buf := xs\<rparr>)
      | [] \<Rightarrow> (if closed ch then Returns (None, ch) else Blocks))"

section \<open>The logger\<close>

text \<open>
  The four calls of the \<^verbatim>\<open>Logger\<close> interface, each with its list of
  arguments. What the logger has been told is a list of entries, oldest first.
\<close>

datatype level = Error | Debug | Info | Warn

datatype 'e logarg = Str string | Num int | ErrVal 'e

type_synonym 'e entry = "level \<times> 'e logarg list"

section \<open>The trigger\<close>

text \<open>
  The struct \<^verbatim>\<open>Death\<close>: \<open>wg\<close> is the counter of the wait group, \<open>timeout\<close> is
  in nanoseconds. \<open>signals\<close> is the set handed to \<^verbatim>\<open>signal.Notify\<close> and
  \<open>listening\<close> says that the goroutine \<^verbatim>\<open>listenForSignal\<close> has not returned.
\<close>

record 's death =
  wg :: int
  sigChannel :: "'s chan"
  callChannel :: "unit chan"
  timeout :: int
  signals :: "'s list"
  listening :: bool

definition NewDeath :: "'s list \<Rightarrow> 's death" where
  "NewDeath sigs =
     \<lparr>wg = 0 + 1,
      sigChannel = make_chan 1,
      callChannel = make_chan 1,
      timeout = 10 * 1000000000,
      signals = sigs,
      listening = True\<rparr>"

text \<open>
  \<^verbatim>\<open>WaitGroup.Wait\<close> returns when the counter is zero; \<^verbatim>\<open>WaitGroup.Done\<close>
  panics when it would make the counter negative.
\<close>

definition wg_Wait :: "'s death \<Rightarrow> unit outcome" where
  "wg_Wait d = (if wg d = 0 then Returns () else Blocks)"

definition wg_Done :: "'s death \<Rightarrow> 's death outcome" where
  "wg_Done d = (if wg d - 1 < 0 then Panics else Returns (d\<lparr>wg := wg d - 1\<rparr>))"

text \<open>
  \<^verbatim>\<open>FallOnSword\<close>, lines 145 to 150: a send inside a \<^verbatim>\<open>select\<close> with a
  \<^verbatim>\<open>default\<close> branch, which is taken when the send cannot proceed.
\<close>

definition FallOnSword :: "'s death \<Rightarrow> 's death outcome" where
  "FallOnSword d =
     (case chan_send () (callChannel d) of
        Returns ch \<Rightarrow> Returns (d\<lparr>callChannel := ch\<rparr>)
      | Blocks \<Rightarrow> Returns d
      | Panics \<Rightarrow> Panics)"

text \<open>
  The arrival of an operating system signal, as package \<^verbatim>\<open>os/signal\<close> relays
  it: to a channel registered for it (for every signal when no signal was
  named), by a send that does not block and drops the signal when the buffer
  is full.
\<close>

definition deliver :: "'s \<Rightarrow> 's death \<Rightarrow> 's death outcome" where
  "deliver s d =
     (if signals d = [] \<or> s \<in> set (signals d)
      then (case chan_send s (sigChannel d) of
              Returns ch \<Rightarrow> Returns (d\<lparr>sigChannel := ch\<rparr>)
            | Blocks \<Rightarrow> Returns d
            | Panics \<Rightarrow> Panics)
      else Returns d)"

text \<open>
  \<^verbatim>\<open>listenForSignal\<close>, lines 153 to 163. The \<^verbatim>\<open>select\<close> takes whichever
  case can proceed; the argument says which one is tried. Either case returns,
  and the deferred \<^verbatim>\<open>wg.Done\<close> runs.
\<close>

datatype select_case = SigCase | CallCase

definition listenForSignal :: "select_case \<Rightarrow> 's death \<Rightarrow> 's death outcome" where
  "listenForSignal sc d =
     (if \<not> listening d then Blocks
      else (case sc of
              SigCase \<Rightarrow>
                (case chan_recv (sigChannel d) of
                   Returns (x, ch) \<Rightarrow> wg_Done (d\<lparr>sigChannel := ch, listening := False\<rparr>)
                 | Blocks \<Rightarrow> Blocks
                 | Panics \<Rightarrow> Panics)
            | CallCase \<Rightarrow>
                (case chan_recv (callChannel d) of
                   Returns (x, ch) \<Rightarrow> wg_Done (d\<lparr>callChannel := ch, listening := False\<rparr>)
                 | Blocks \<Rightarrow> Blocks
                 | Panics \<Rightarrow> Panics)))"

text \<open>
  What can happen to a \<^verbatim>\<open>Death\<close>: a signal arrives, the host calls
  \<^verbatim>\<open>FallOnSword\<close>, or the listener proceeds on one of its two cases. An event
  that cannot happen in a state (the listener is blocked or gone) gives
  \<open>Blocks\<close>.
\<close>

datatype 's event = Signal 's | Sword | Listener select_case

fun occur :: "'s event \<Rightarrow> 's death \<Rightarrow> 's death outcome" where
  "occur (Signal s) d = deliver s d"
| "occur Sword d = FallOnSword d"
| "occur (Listener sc) d = listenForSignal sc d"

fun occur_all :: "'s event list \<Rightarrow> 's death \<Rightarrow> 's death outcome" where
  "occur_all [] d = Returns d"
| "occur_all (e # es) d =
     (case occur e d of
        Returns d' \<Rightarrow> occur_all es d'
      | Blocks \<Rightarrow> Blocks
      | Panics \<Rightarrow> Panics)"

text \<open>The two states of the trigger.\<close>

definition Armed :: "'s death \<Rightarrow> bool" where
  "Armed d = (listening d \<and> wg d = 1)"

definition Triggered :: "'s death \<Rightarrow> bool" where
  "Triggered d = (\<not> listening d \<and> wg d = 0)"

section \<open>The mass close\<close>

text \<open>The struct \<^verbatim>\<open>closer\<close>.\<close>

record 'v closer =
  Index :: int
  C :: "'v io_Closer"
  Name :: string
  PKGPath :: string

text \<open>
  A goroutine running \<^verbatim>\<open>closeObjects\<close> is inside the call of \<^verbatim>\<open>Close\<close>
  (line 137), or past it and at the send of line 141, or finished.
\<close>

datatype gstate = Closing | AtSend | Finished

text \<open>
  \<^verbatim>\<open>closeInMass\<close> is populating (the loop of lines 106 to 111), or in its
  \<^verbatim>\<open>select\<close> loop, or it has returned (\<open>None\<close> is the nil error, \<open>Some m\<close> an
  error with message \<open>m\<close>), or the process has died of a panic.
\<close>

datatype status = Populating | Looping | Returned "string option" | Crashed

text \<open>
  The variables of one call of \<^verbatim>\<open>closeInMass\<close>. \<open>todo\<close> holds the pairs of the
  \<^verbatim>\<open>range\<close> loop still to come, \<open>tasks\<close> the goroutines started so far with
  the \<^verbatim>\<open>closer\<close> each was given, \<open>logs\<close> what the logger has been told.
  \<open>sentToClose\<close> is the map, as an association list.
\<close>

record ('v, 'e) mass =
  todo :: "(int \<times> 'v io_Closer) list"
  count_var :: int
  sentToClose :: "(int \<times> 'v closer) list"
  doneClosers :: "'v closer chan"
  tasks :: "('v closer \<times> gstate) list"
  logs :: "'e entry list"
  status :: status

text \<open>The pairs of index and element that a \<^verbatim>\<open>range\<close> over a slice visits.\<close>

definition ranged :: "'a list \<Rightarrow> (int \<times> 'a) list" where
  "ranged xs = map (\<lambda>(i, x). (int i, x)) (enumerate 0 xs)"

text \<open>Lines 102 to 105: the state in which the \<^verbatim>\<open>range\<close> loop starts.\<close>

definition closeInMass :: "'e entry list \<Rightarrow> 'v io_Closer list \<Rightarrow> ('v, 'e) mass" where
  "closeInMass lg closable =
     \<lparr>todo = ranged closable,
      count_var = int (length closable),
      sentToClose = [],
      doneClosers = make_chan (length closable),
      tasks = [],
      logs = lg,
      status = Populating\<rparr>"

text \<open>The zero value of \<^verbatim>\<open>closer\<close>.\<close>

definition zero_closer :: "'v closer" where
  "zero_closer = \<lparr>Index = 0, C = NilIface, Name = [], PKGPath = []\<rparr>"

text \<open>
  The steps of a call. \<open>Spawn\<close> is one iteration of the \<^verbatim>\<open>range\<close> loop;
  \<open>NewTimer\<close> is line 114; \<open>CloseReturns i r\<close> is the return of \<^verbatim>\<open>Close\<close> in
  goroutine \<open>i\<close> with the nil error (\<open>None\<close>) or an error, and its logging;
  \<open>Send i\<close> is the send of line 141; \<open>Recv\<close> and \<open>TimerFires\<close> are the two
  cases of the \<^verbatim>\<open>select\<close>. A timer fires whenever the scheduler says so:
  durations are not modelled. \<open>TimerFires\<close> carries the order in which the
  \<^verbatim>\<open>range\<close> over the map visits its entries, as a permutation of their
  positions. A \<^verbatim>\<open>Close\<close> that hangs is a goroutine that is never scheduled.
\<close>

datatype 'e action =
    Spawn
  | NewTimer
  | CloseReturns nat "'e option"
  | Send nat
  | Recv
  | TimerFires "nat list"

definition spawn :: "('v, 'e) mass \<Rightarrow> ('v, 'e) mass option" where
  "spawn st =
     (if status st \<noteq> Populating then None
      else (case todo st of
              [] \<Rightarrow> None
            | (i, c) # rest \<Rightarrow>
                (case getPkgPath c of
                   Returns (name, pkgPath) \<Rightarrow>
                     (let cl = \<lparr>Index = i, C = c, Name = name, PKGPath = pkgPath\<rparr>
                      in Some (st\<lparr>todo := rest,
                                  tasks := tasks st @ [(cl, Closing)],
                                  sentToClose := AList.update i cl (sentToClose st)\<rparr>))
                 | Blocks \<Rightarrow> None
                 | Panics \<Rightarrow> Some (st\<lparr>status := Crashed\<rparr>))))"

definition new_timer :: "('v, 'e) mass \<Rightarrow> ('v, 'e) mass option" where
  "new_timer st =
     (if status st = Populating \<and> todo st = [] then Some (st\<lparr>status := Looping\<rparr>)
      else None)"

text \<open>\<^verbatim>\<open>closeObjects\<close>, lines 137 to 140, in goroutine \<open>i\<close>.\<close>

definition close_returns :: "nat \<Rightarrow> 'e option \<Rightarrow> ('v, 'e) mass \<Rightarrow> ('v, 'e) mass option" where
  "close_returns i r st =
     (if status st = Crashed \<or> length (tasks st) \<le> i then None
      else (case tasks st ! i of
              (cl, Closing) \<Rightarrow>
                (if C cl = NilIface then Some (st\<lparr>status := Crashed\<rparr>)
                 else Some (st\<lparr>tasks := (tasks st)[i := (cl, AtSend)],
                              logs := logs st @
                                (case r of None \<Rightarrow> [] | Some e \<Rightarrow> [(Error, [ErrVal e])])\<rparr>))
            | (cl, AtSend) \<Rightarrow> None
            | (cl, Finished) \<Rightarrow> None))"

text \<open>\<^verbatim>\<open>closeObjects\<close>, line 141, in goroutine \<open>i\<close>.\<close>

definition send_done :: "nat \<Rightarrow> ('v, 'e) mass \<Rightarrow> ('v, 'e) mass option" where
  "send_done i st =
     (if status st = Crashed \<or> length (tasks st) \<le> i then None
      else (case tasks st ! i of
              (cl, AtSend) \<Rightarrow>
                (case chan_send cl (doneClosers st) of
                   Returns ch \<Rightarrow>
                     Some (st\<lparr>doneClosers := ch, tasks := (tasks st)[i := (cl, Finished)]\<rparr>)
                 | Blocks \<Rightarrow> None
                 | Panics \<Rightarrow> Some (st\<lparr>status := Crashed\<rparr>))
            | (cl, Closing) \<Rightarrow> None
            | (cl, Finished) \<Rightarrow> None))"

text \<open>Lines 123 to 130: the completion case of the \<^verbatim>\<open>select\<close>.\<close>

definition recv_done :: "('v, 'e) mass \<Rightarrow> ('v, 'e) mass option" where
  "recv_done st =
     (if status st \<noteq> Looping then None
      else (case chan_recv (doneClosers st) of
              Returns (x, ch) \<Rightarrow>
                (let cl = (case x of Some c \<Rightarrow> c | None \<Rightarrow> zero_closer);
                     m = AList.delete (Index cl) (sentToClose st);
                     n = count_var st - 1;
                     lg = logs st @ [(Debug, [Num n, Str '' object(s) left''])]
                 in if n = 0 \<and> length m = 0
                    then Some (st\<lparr>doneClosers := ch, sentToClose := m, count_var := n,
                                 logs := lg @ [(Debug, [Str ''Finished closing objects''])],
                                 status := Returned None\<rparr>)
                    else Some (st\<lparr>doneClosers := ch, sentToClose := m, count_var := n,
                                 logs := lg\<rparr>))
            | Blocks \<Rightarrow> None
            | Panics \<Rightarrow> Some (st\<lparr>status := Crashed\<rparr>)))"

text \<open>Lines 117 to 122: the timer case of the \<^verbatim>\<open>select\<close>.\<close>

definition failed_entry :: "int \<times> 'v closer \<Rightarrow> 'e entry" where
  "failed_entry kc =
     (Error, [Str ''Failed to close: '', Str (PKGPath (snd kc)), Str ''/'', Str (Name (snd kc))])"

definition timer_fires :: "nat list \<Rightarrow> ('v, 'e) mass \<Rightarrow> ('v, 'e) mass option" where
  "timer_fires ord st =
     (if status st \<noteq> Looping \<or> mset ord \<noteq> mset [0..<length (sentToClose st)] then None
      else Some (st\<lparr>logs := logs st
                     @ [(Warn, [Num (count_var st), Str '' object(s) remaining but timer expired.''])]
                     @ map (\<lambda>j. failed_entry (sentToClose st ! j)) ord,
                   status := Returned (Some ''failed to close all objects'')\<rparr>))"

fun step :: "'e action \<Rightarrow> ('v, 'e) mass \<Rightarrow> ('v, 'e) mass option" where
  "step Spawn st = spawn st"
| "step NewTimer st = new_timer st"
| "step (CloseReturns i r) st = close_returns i r st"
| "step (Send i) st = send_done i st"
| "step Recv st = recv_done st"
| "step (TimerFires ord) st = timer_fires ord st"

text \<open>A schedule is a list of steps; it runs when each step can be taken.\<close>

fun exec :: "'e action list \<Rightarrow> ('v, 'e) mass \<Rightarrow> ('v, 'e) mass option" where
  "exec [] st = Some st"
| "exec (a # as) st = (case step a st of None \<Rightarrow> None | Some st' \<Rightarrow> exec as st')"

section \<open>The entry points\<close>

text \<open>
  \<^verbatim>\<open>WaitForDeath\<close>, lines 70 to 79: it is still waiting on the wait group, or
  it has returned nil without calling \<^verbatim>\<open>closeInMass\<close>, or it is inside
  \<^verbatim>\<open>closeInMass\<close>, whose result it returns.
\<close>

datatype ('v, 'e) waited =
    StillWaiting
  | ReturnedNil "'e entry list"
  | InCloseInMass "('v, 'e) mass"

definition WaitForDeath ::
    "'s death \<Rightarrow> 'e entry list \<Rightarrow> 'v io_Closer list \<Rightarrow> ('v, 'e) waited" where
  "WaitForDeath d lg closable =
     (if wg_Wait d = Returns ()
      then (let lg1 = lg @ [(Info, [Str ''Shutdown started...''])];
                count = int (length closable);
                lg2 = lg1 @ [(Debug, [Str ''Closing '', Num count, Str '' objects''])]
            in if count > 0 then InCloseInMass (closeInMass lg2 closable)
               else ReturnedNil lg2)
      else StillWaiting)"

text \<open>
  \<^verbatim>\<open>WaitForDeathWithFunc\<close>, lines 83 to 87; the callback acts on a state \<open>'h\<close>
  of the host.
\<close>

definition WaitForDeathWithFunc ::
    "'s death \<Rightarrow> 'e entry list \<Rightarrow> ('h \<Rightarrow> 'h) \<Rightarrow> 'h \<Rightarrow> ('e entry list \<times> 'h) outcome" where
  "WaitForDeathWithFunc d lg f h =
     (if wg_Wait d = Returns ()
      then Returns (lg @ [(Info, [Str ''Shutdown started...''])], f h)
      else Blocks)"

section \<open>Invariants\<close>

text \<open>What holds of a \<^verbatim>\<open>Death\<close> from \<^verbatim>\<open>NewDeath\<close> on.\<close>

definition trigger_inv :: "'s death \<Rightarrow> bool" where
  "trigger_inv d =
     (\<not> closed (sigChannel d) \<and> \<not> closed (callChannel d) \<and>
      cap (sigChannel d) = 1 \<and> cap (callChannel d) = 1 \<and>
      length (buf (sigChannel d)) \<le> 1 \<and> length (buf (callChannel d)) \<le> 1 \<and>
      (listening d \<and> wg d = 1 \<or> \<not> listening d \<and> wg d = 0))"

text \<open>The closers of the goroutines that have not sent their completion yet.\<close>

definition unsent :: "('v closer \<times> gstate) list \<Rightarrow> 'v closer list" where
  "unsent ts = map fst (filter (\<lambda>t. snd t \<noteq> Finished) ts)"

text \<open>
  \<open>wraps closable i cl\<close>: \<open>cl\<close> is the \<^verbatim>\<open>closer\<close> that line 108 builds for
  position \<open>i\<close> of the input.
\<close>

definition wraps :: "'v io_Closer list \<Rightarrow> nat \<Rightarrow> 'v closer \<Rightarrow> bool" where
  "wraps closable i cl =
     (i < length closable \<and> Index cl = int i \<and> C cl = closable ! i \<and>
      getPkgPath (closable ! i) = Returns (Name cl, PKGPath cl))"

text \<open>
  What holds throughout a call of \<^verbatim>\<open>closeInMass\<close> on \<open>closable\<close>: the
  channel is open and as large as the input; the goroutines started are those
  of the positions visited; \<open>count\<close> is the size of the map plus the positions
  to come; the keys of the map are distinct, and its values are the closers in
  the channel together with those not sent yet.
\<close>

definition mass_inv :: "'v io_Closer list \<Rightarrow> ('v, 'e) mass \<Rightarrow> bool" where
  "mass_inv closable st =
     (\<not> closed (doneClosers st) \<and> cap (doneClosers st) = length closable \<and>
      length (tasks st) \<le> length closable \<and>
      drop (length (tasks st)) (ranged closable) = todo st \<and>
      (\<forall>i < length (tasks st). wraps closable i (fst (tasks st ! i))) \<and>
      count_var st = int (length (sentToClose st)) + int (length (todo st)) \<and>
      distinct (map fst (sentToClose st)) \<and>
      (\<forall>kc \<in> set (sentToClose st).
         \<exists>i < length (tasks st). fst kc = int i \<and> snd kc = fst (tasks st ! i)) \<and>
      mset (map snd (sentToClose st)) = mset (buf (doneClosers st)) + mset (unsent (tasks st)) \<and>
      length (sentToClose st) \<le> length (tasks st) \<and>
      (status st = Populating \<longrightarrow>
         map (\<lambda>c. (Index c, c)) (map fst (tasks st)) = sentToClose st) \<and>
      (status st \<noteq> Populating \<and> status st \<noteq> Crashed \<longrightarrow> todo st = []) \<and>
      (status st = Looping \<or> (\<exists>m. status st = Returned (Some m)) \<longrightarrow>
         sentToClose st \<noteq> [] \<or> closable = []) \<and>
      (status st = Returned None \<longrightarrow> sentToClose st = []))"

text \<open>The name and origin of every entry still in the map.\<close>

definition unresolved :: "('v, 'e) mass \<Rightarrow> (string \<times> string) list" where
  "unresolved st = map (\<lambda>kc. (Name (snd kc), PKGPath (snd kc))) (sentToClose st)"

section \<open>Concrete states and resources\<close>

text \<open>States and resources on which the theorems below are run.\<close>

definition after_signal :: "nat death" where
  "after_signal =
     \<lparr>wg = 0, sigChannel = \<lparr>buf = [], cap = 1, closed = False\<rparr>,
      callChannel = \<lparr>buf = [], cap = 1, closed = False\<rparr>,
      timeout = 10000000000, signals = [15], listening = False\<rparr>"

definition sword_posted :: "nat death" where
  "sword_posted =
     \<lparr>wg = 1, sigChannel = \<lparr>buf = [], cap = 1, closed = False\<rparr>,
      callChannel = \<lparr>buf = [()], cap = 1, closed = False\<rparr>,
      timeout = 10000000000, signals = [15], listening = True\<rparr>"

definition file_a :: "nat io_Closer" where
  "file_a = Iface (PtrTo (Defined ''File'' ''os'')) 1"

definition conn_b :: "nat io_Closer" where
  "conn_b = Iface (PtrTo (Defined ''TCPConn'' ''net'')) 2"

section \<open>Introspection of a resource\<close>

lemma getPkgPath_Iface:
  "getPkgPath (Iface t v) = Returns (Name_of (stripped t), PkgPath_of (stripped t))"
  by (cases t) (simp_all add: getPkgPath_def)

text \<open>
  C8, as the claim states it, fails: for the nil interface value
  \<^verbatim>\<open>getPkgPath\<close> panics.
\<close>

theorem getPkgPath_nil_panics: "getPkgPath (NilIface :: nat io_Closer) = Panics"
  by (simp add: getPkgPath_def)

text \<open>
  C8, amended: for every closeable value other than the nil interface,
  \<^verbatim>\<open>getPkgPath\<close> returns (it neither panics nor blocks) the name and the
  package path of the value's dynamic type with one pointer level stripped, and
  both are the empty string when that type is not a defined type.
\<close>

theorem getPkgPath_best_effort:
  "c \<noteq> NilIface \<Longrightarrow>
     (\<exists>t v. c = Iface t v \<and>
        getPkgPath c = Returns (Name_of (stripped t), PkgPath_of (stripped t)) \<and>
        ((\<forall>n p. stripped t \<noteq> Defined n p) \<longrightarrow> getPkgPath c = Returns ([], [])))"
proof -
  assume "c \<noteq> NilIface"
  then obtain t v where c: "c = Iface t v" by (cases c) auto
  have "(\<forall>n p. stripped t \<noteq> Defined n p) \<longrightarrow>
          Name_of (stripped t) = [] \<and> PkgPath_of (stripped t) = []"
    by (cases "stripped t") auto
  with c show ?thesis by (auto simp: getPkgPath_Iface)
qed

theorem getPkgPath_best_effort_witness:
  "Iface (PtrTo Unnamed) (0::nat) \<noteq> NilIface \<and>
   getPkgPath (Iface (PtrTo Unnamed) (0::nat)) = Returns ([], []) \<and>
   getPkgPath (Iface (PtrTo (Defined ''File'' ''os'')) (1::nat)) = Returns (''File'', ''os'')"
  using getPkgPath_best_effort [of "Iface (PtrTo Unnamed) (0::nat)"]
    getPkgPath_best_effort [of "Iface (PtrTo (Defined ''File'' ''os'')) (1::nat)"]
  by auto

section \<open>The trigger is sound\<close>

lemma trigger_inv_NewDeath: "trigger_inv (NewDeath sigs)"
  by (simp add: trigger_inv_def NewDeath_def make_chan_def)

lemma trigger_inv_FallOnSword:
  "trigger_inv d \<Longrightarrow> FallOnSword d = Returns d' \<Longrightarrow> trigger_inv d'"
  by (auto simp: trigger_inv_def FallOnSword_def chan_send_def split: if_splits)

lemma trigger_inv_deliver:
  "trigger_inv d \<Longrightarrow> deliver s d = Returns d' \<Longrightarrow> trigger_inv d'"
  by (auto simp: trigger_inv_def deliver_def chan_send_def split: if_splits)

lemma trigger_inv_listenForSignal:
  "trigger_inv d \<Longrightarrow> listenForSignal sc d = Returns d' \<Longrightarrow> trigger_inv d'"
  by (cases sc)
     (auto simp: trigger_inv_def listenForSignal_def chan_recv_def wg_Done_def
           split: if_splits list.splits)

lemma trigger_inv_occur:
  "trigger_inv d \<Longrightarrow> occur e d = Returns d' \<Longrightarrow> trigger_inv d'"
  by (cases e)
     (auto intro: trigger_inv_FallOnSword trigger_inv_deliver trigger_inv_listenForSignal)

lemma trigger_inv_occur_all:
  "trigger_inv d \<Longrightarrow> occur_all es d = Returns d' \<Longrightarrow> trigger_inv d'"
proof (induction es arbitrary: d)
  case Nil
  then show ?case by simp
next
  case (Cons e es)
  then show ?case
    by (cases "occur e d") (auto dest: trigger_inv_occur)
qed

lemma reachable_trigger_inv:
  "occur_all es (NewDeath sigs) = Returns d \<Longrightarrow> trigger_inv d"
  using trigger_inv_occur_all [OF trigger_inv_NewDeath] .

section \<open>The trigger: claims\<close>

lemma occur_all_append:
  "occur_all (es @ fs) d =
     (case occur_all es d of Returns d' \<Rightarrow> occur_all fs d' | Blocks \<Rightarrow> Blocks | Panics \<Rightarrow> Panics)"
  by (induction es arbitrary: d) (auto split: outcome.splits)

lemmas trigger_defs = NewDeath_def make_chan_def FallOnSword_def chan_send_def deliver_def
  listenForSignal_def chan_recv_def wg_Done_def

lemma after_signal_run:
  "occur_all [Signal 15, Listener SigCase] (NewDeath [15]) = Returns after_signal"
  by (simp add: trigger_defs after_signal_def)

lemma occur_never_panics: "trigger_inv d \<Longrightarrow> occur e d \<noteq> Panics"
proof (cases e)
  case (Signal s)
  assume "trigger_inv d"
  with Signal show ?thesis by (simp add: trigger_inv_def deliver_def chan_send_def)
next
  case Sword
  assume "trigger_inv d"
  with Sword show ?thesis by (simp add: trigger_inv_def FallOnSword_def chan_send_def)
next
  case (Listener sc)
  assume "trigger_inv d"
  with Listener show ?thesis
    by (cases sc)
       (auto simp: trigger_inv_def listenForSignal_def chan_recv_def wg_Done_def
             split: list.splits)
qed

lemma occur_all_never_panics: "trigger_inv d \<Longrightarrow> occur_all es d \<noteq> Panics"
proof (induction es arbitrary: d)
  case Nil
  then show ?case by simp
next
  case (Cons e es)
  show ?case
  proof (cases "occur e d")
    case (Returns d')
    with Cons.prems have "trigger_inv d'" by (auto dest: trigger_inv_occur)
    with Cons.IH Returns show ?thesis by simp
  next
    case Blocks
    then show ?thesis by simp
  next
    case Panics
    with occur_never_panics [OF Cons.prems] show ?thesis by simp
  qed
qed

lemma FallOnSword_total:
  assumes "trigger_inv d"
  shows "\<exists>d'. FallOnSword d = Returns d' \<and> FallOnSword d' = Returns d' \<and>
           wg d' = wg d \<and> listening d' = listening d \<and> sigChannel d' = sigChannel d \<and>
           cap (callChannel d') = 1 \<and> length (buf (callChannel d')) = 1 \<and>
           (buf (callChannel d) \<noteq> [] \<longrightarrow> d' = d)"
proof (cases "buf (callChannel d)")
  case Nil
  with assms show ?thesis
    by (simp add: trigger_inv_def FallOnSword_def chan_send_def)
next
  case (Cons x xs)
  with assms have "xs = []" by (simp add: trigger_inv_def)
  with Cons assms show ?thesis
    by (simp add: trigger_inv_def FallOnSword_def chan_send_def)
qed

text \<open>
  C5: no sequence of signals, calls of \<^verbatim>\<open>FallOnSword\<close> and listener steps
  on a \<^verbatim>\<open>Death\<close> made by \<^verbatim>\<open>NewDeath\<close> panics. In every state so reached,
  whether or not the listener has already consumed a trigger,
  \<^verbatim>\<open>FallOnSword\<close> returns: it neither blocks nor panics, and two calls in
  succession return as well. It leaves the wait group, the listener and the
  signal channel as they were; the manual channel has capacity one and holds
  exactly one pending trigger afterwards; a call that finds one pending
  changes nothing, and so does a second call straight after the first.
\<close>

theorem FallOnSword_never_blocks_or_panics:
  "occur_all es (NewDeath sigs) \<noteq> Panics \<and>
   (\<forall>d. occur_all es (NewDeath sigs) = Returns d \<longrightarrow>
     (\<exists>d'. FallOnSword d = Returns d' \<and> FallOnSword d' = Returns d' \<and>
        occur_all (es @ [Sword, Sword]) (NewDeath sigs) = Returns d' \<and>
        wg d' = wg d \<and> listening d' = listening d \<and> sigChannel d' = sigChannel d \<and>
        cap (callChannel d') = 1 \<and> length (buf (callChannel d')) = 1 \<and>
        (buf (callChannel d) \<noteq> [] \<longrightarrow> d' = d)))"
proof (intro conjI allI impI)
  show "occur_all es (NewDeath sigs) \<noteq> Panics"
    using occur_all_never_panics [OF trigger_inv_NewDeath] .
next
  fix d assume r: "occur_all es (NewDeath sigs) = Returns d"
  from FallOnSword_total [OF reachable_trigger_inv [OF r]]
  obtain d' where f: "FallOnSword d = Returns d'" "FallOnSword d' = Returns d'"
    and rest: "wg d' = wg d" "listening d' = listening d" "sigChannel d' = sigChannel d"
      "cap (callChannel d') = 1" "length (buf (callChannel d')) = 1"
      "buf (callChannel d) \<noteq> [] \<longrightarrow> d' = d" by blast
  have "occur_all (es @ [Sword, Sword]) (NewDeath sigs) = Returns d'"
    using r f by (simp add: occur_all_append)
  with f rest show "\<exists>d'. FallOnSword d = Returns d' \<and> FallOnSword d' = Returns d' \<and>
        occur_all (es @ [Sword, Sword]) (NewDeath sigs) = Returns d' \<and>
        wg d' = wg d \<and> listening d' = listening d \<and> sigChannel d' = sigChannel d \<and>
        cap (callChannel d') = 1 \<and> length (buf (callChannel d')) = 1 \<and>
        (buf (callChannel d) \<noteq> [] \<longrightarrow> d' = d)" by blast
qed

theorem FallOnSword_never_blocks_or_panics_witness:
  "occur_all [Signal 15, Listener SigCase] (NewDeath [15]) = Returns after_signal \<and>
   FallOnSword after_signal =
     Returns (after_signal\<lparr>callChannel := \<lparr>buf = [()], cap = 1, closed = False\<rparr>\<rparr>) \<and>
   (\<exists>d'. FallOnSword after_signal = Returns d' \<and> FallOnSword d' = Returns d' \<and>
      occur_all [Signal 15, Listener SigCase, Sword, Sword] (NewDeath [15]) = Returns d' \<and>
      wg d' = 0 \<and> \<not> listening d')"
proof -
  have r: "occur_all [Signal 15, Listener SigCase] (NewDeath [15]) = Returns after_signal"
    by (rule after_signal_run)
  have f: "FallOnSword after_signal =
     Returns (after_signal\<lparr>callChannel := \<lparr>buf = [()], cap = 1, closed = False\<rparr>\<rparr>)"
    by (simp add: trigger_defs after_signal_def)
  have w: "wg after_signal = 0" "\<not> listening after_signal" by (simp_all add: after_signal_def)
  from FallOnSword_never_blocks_or_panics [of "[Signal 15, Listener SigCase]" "[15]"] r
  obtain d' where "FallOnSword after_signal = Returns d'" "FallOnSword d' = Returns d'"
    "occur_all ([Signal 15, Listener SigCase] @ [Sword, Sword]) (NewDeath [15]) = Returns d'"
    "wg d' = wg after_signal" "listening d' = listening after_signal" by blast
  with r f w show ?thesis by auto
qed

text \<open>
  C6: the trigger is Armed after \<^verbatim>\<open>NewDeath\<close> and in every reachable state
  it is either Armed or Triggered. Triggered is terminal: no event leaves it.
  Armed turns into Triggered only when the listener takes a signal or a manual
  trigger from its channel, and it can do so as soon as one is there.
  \<^verbatim>\<open>wg.Wait\<close>, hence \<^verbatim>\<open>WaitForDeath\<close> and \<^verbatim>\<open>WaitForDeathWithFunc\<close>, blocks
  exactly while the trigger is Armed and returns exactly when it is Triggered,
  so every later wait returns at once.
\<close>

theorem trigger_one_shot:
  "occur_all es (NewDeath sigs) = Returns d \<Longrightarrow>
     Armed (NewDeath sigs) \<and>
     (Armed d \<or> Triggered d) \<and> \<not> (Armed d \<and> Triggered d) \<and>
     (\<forall>e d'. Triggered d \<longrightarrow> occur e d = Returns d' \<longrightarrow> Triggered d') \<and>
     (\<forall>e d'. Armed d \<longrightarrow> occur e d = Returns d' \<longrightarrow> Triggered d' \<longrightarrow>
        (e = Listener SigCase \<and> buf (sigChannel d) \<noteq> []) \<or>
        (e = Listener CallCase \<and> buf (callChannel d) \<noteq> [])) \<and>
     (Armed d \<longrightarrow> buf (sigChannel d) \<noteq> [] \<longrightarrow>
        (\<exists>d'. occur (Listener SigCase) d = Returns d' \<and> Triggered d')) \<and>
     (Armed d \<longrightarrow> buf (callChannel d) \<noteq> [] \<longrightarrow>
        (\<exists>d'. occur (Listener CallCase) d = Returns d' \<and> Triggered d')) \<and>
     (wg_Wait d = Returns () \<longleftrightarrow> Triggered d) \<and>
     (wg_Wait d = Blocks \<longleftrightarrow> Armed d) \<and>
     (WaitForDeath d lg closable = StillWaiting \<longleftrightarrow> Armed d) \<and>
     (WaitForDeathWithFunc d lg f h = Blocks \<longleftrightarrow> Armed d)"
proof -
  assume r: "occur_all es (NewDeath sigs) = Returns d"
  have inv: "trigger_inv d" using r by (rule reachable_trigger_inv)
  have a0: "Armed (NewDeath sigs)" by (simp add: Armed_def NewDeath_def)
  have a1: "(Armed d \<or> Triggered d) \<and> \<not> (Armed d \<and> Triggered d)"
    using inv by (auto simp: trigger_inv_def Armed_def Triggered_def)
  have a2: "\<forall>e d'. Triggered d \<longrightarrow> occur e d = Returns d' \<longrightarrow> Triggered d'"
  proof (intro allI impI)
    fix e d' assume t: "Triggered d" and o: "occur e d = Returns d'"
    show "Triggered d'"
    proof (cases e)
      case (Signal s)
      with t o show ?thesis
        by (auto simp: Triggered_def deliver_def chan_send_def split: if_splits)
    next
      case Sword
      with t o show ?thesis
        by (auto simp: Triggered_def FallOnSword_def chan_send_def split: if_splits)
    next
      case (Listener sc)
      with t o show ?thesis
        by (simp add: Triggered_def listenForSignal_def)
    qed
  qed
  have a3: "\<forall>e d'. Armed d \<longrightarrow> occur e d = Returns d' \<longrightarrow> Triggered d' \<longrightarrow>
        (e = Listener SigCase \<and> buf (sigChannel d) \<noteq> []) \<or>
        (e = Listener CallCase \<and> buf (callChannel d) \<noteq> [])"
  proof (intro allI impI)
    fix e d' assume t: "Armed d" and o: "occur e d = Returns d'" and t': "Triggered d'"
    show "(e = Listener SigCase \<and> buf (sigChannel d) \<noteq> []) \<or>
        (e = Listener CallCase \<and> buf (callChannel d) \<noteq> [])"
    proof (cases e)
      case (Signal s)
      with t o t' show ?thesis
        by (auto simp: Armed_def Triggered_def deliver_def chan_send_def split: if_splits)
    next
      case Sword
      with t o t' show ?thesis
        by (auto simp: Armed_def Triggered_def FallOnSword_def chan_send_def split: if_splits)
    next
      case (Listener sc)
      with t o t' inv show ?thesis
        by (cases sc)
           (auto simp: trigger_inv_def Armed_def listenForSignal_def chan_recv_def
                 split: list.splits if_splits)
    qed
  qed
  have a4: "Armed d \<longrightarrow> buf (sigChannel d) \<noteq> [] \<longrightarrow>
        (\<exists>d'. occur (Listener SigCase) d = Returns d' \<and> Triggered d')"
    by (auto simp: Armed_def Triggered_def listenForSignal_def chan_recv_def wg_Done_def
             split: list.splits)
  have a5: "Armed d \<longrightarrow> buf (callChannel d) \<noteq> [] \<longrightarrow>
        (\<exists>d'. occur (Listener CallCase) d = Returns d' \<and> Triggered d')"
    by (auto simp: Armed_def Triggered_def listenForSignal_def chan_recv_def wg_Done_def
             split: list.splits)
  have a6: "(wg_Wait d = Returns () \<longleftrightarrow> Triggered d) \<and> (wg_Wait d = Blocks \<longleftrightarrow> Armed d)"
    using inv by (auto simp: trigger_inv_def wg_Wait_def Armed_def Triggered_def)
  have a7: "(WaitForDeath d lg closable = StillWaiting \<longleftrightarrow> Armed d) \<and>
     (WaitForDeathWithFunc d lg f h = Blocks \<longleftrightarrow> Armed d)"
    using inv
    by (auto simp: trigger_inv_def wg_Wait_def Armed_def WaitForDeath_def
          WaitForDeathWithFunc_def Let_def)
  from a0 a1 a2 a3 a4 a5 a6 a7 show ?thesis by blast
qed

theorem trigger_one_shot_witness:
  "occur_all [Sword] (NewDeath [15]) = Returns sword_posted \<and>
   Armed sword_posted \<and> wg_Wait sword_posted = Blocks \<and>
   (\<exists>d'. occur (Listener CallCase) sword_posted = Returns d' \<and> Triggered d')"
proof -
  have r: "occur_all [Sword] (NewDeath [15]) = Returns sword_posted"
    by (simp add: trigger_defs sword_posted_def)
  have a: "Armed sword_posted" by (simp add: Armed_def sword_posted_def)
  have b: "buf (callChannel sword_posted) \<noteq> []" by (simp add: sword_posted_def)
  note t = trigger_one_shot [OF r, where lg = "[] :: nat entry list"
      and closable = "[] :: nat io_Closer list" and f = "id :: unit \<Rightarrow> unit" and h = "()"]
  from t r a b show ?thesis by blast
qed

text \<open>
  C4: once the trigger has fired, \<^verbatim>\<open>WaitForDeath\<close> with no resource logs its
  two lines and returns nil without entering \<^verbatim>\<open>closeInMass\<close>: no goroutine
  is started and no timer is made. With at least one resource it enters
  \<^verbatim>\<open>closeInMass\<close>.
\<close>

theorem WaitForDeath_empty:
  "occur_all es (NewDeath sigs) = Returns d \<Longrightarrow> Triggered d \<Longrightarrow>
     WaitForDeath d lg ([] :: 'v io_Closer list) =
       ReturnedNil (lg @ [(Info, [Str ''Shutdown started...'']),
                          (Debug, [Str ''Closing '', Num 0, Str '' objects''])]) \<and>
     (\<forall>c cs. \<exists>st. WaitForDeath d lg (c # cs :: 'v io_Closer list) = InCloseInMass st)"
  by (simp add: Triggered_def WaitForDeath_def wg_Wait_def)

theorem WaitForDeath_empty_witness:
  "occur_all [Signal 15, Listener SigCase] (NewDeath [15]) = Returns after_signal \<and>
   Triggered after_signal \<and>
   WaitForDeath after_signal [] ([] :: nat io_Closer list) =
     (ReturnedNil [(Info, [Str ''Shutdown started...'']),
                   (Debug, [Str ''Closing '', Num 0, Str '' objects''])]
      :: (nat, nat) waited)"
proof -
  have t: "Triggered after_signal" by (simp add: Triggered_def after_signal_def)
  note w = WaitForDeath_empty [OF after_signal_run t, where lg = "[] :: nat entry list"
      and ?'v = nat]
  from w after_signal_run t show ?thesis by auto
qed

section \<open>The mass close keeps its invariant\<close>

lemma length_ranged: "length (ranged xs) = length xs"
  by (simp add: ranged_def)

lemma nth_ranged: "i < length xs \<Longrightarrow> ranged xs ! i = (int i, xs ! i)"
  by (simp add: ranged_def nth_enumerate_eq)

lemma drop_eq_Cons:
  "drop n xs = y # ys \<Longrightarrow> n < length xs \<and> y = xs ! n \<and> ys = drop (Suc n) xs"
proof -
  assume a: "drop n xs = y # ys"
  then have n: "n < length xs" by (cases "n < length xs") auto
  from Cons_nth_drop_Suc [OF n] a show ?thesis using n by simp
qed

lemma update_fresh: "k \<notin> fst ` set al \<Longrightarrow> AList.update k v al = al @ [(k, v)]"
  by (induction al) auto

lemma mset_delete_entry:
  "distinct (map fst al) \<Longrightarrow> (k, v) \<in> set al \<Longrightarrow>
     mset (AList.delete k al) + {#(k, v)#} = mset al"
proof (induction al)
  case Nil
  then show ?case by simp
next
  case (Cons a al)
  show ?case
  proof (cases "a = (k, v)")
    case True
    with Cons.prems have "k \<notin> fst ` set al" by auto
    then have "AList.delete k al = al" by simp
    with True show ?thesis by simp
  next
    case False
    with Cons.prems have in_al: "(k, v) \<in> set al" and d: "distinct (map fst al)"
      and ne: "fst a \<noteq> k" by (auto simp: rev_image_eqI)
    from Cons.IH [OF d in_al] ne show ?thesis by (cases a) auto
  qed
qed

lemma set_delete_subset: "set (AList.delete k al) \<subseteq> set al"
  by (auto simp: AList.delete_eq)

lemma unsent_append: "unsent (ts @ [(cl, Closing)]) = unsent ts @ [cl]"
  by (simp add: unsent_def)

lemma unsent_AtSend:
  "i < length ts \<Longrightarrow> ts ! i = (cl, Closing) \<Longrightarrow> unsent (ts[i := (cl, AtSend)]) = unsent ts"
proof (induction ts arbitrary: i)
  case Nil
  then show ?case by simp
next
  case (Cons t ts)
  then show ?case by (cases i) (auto simp: unsent_def)
qed

lemma unsent_Finished:
  "i < length ts \<Longrightarrow> ts ! i = (cl, AtSend) \<Longrightarrow>
     mset (unsent (ts[i := (cl, Finished)])) + {#cl#} = mset (unsent ts)"
proof (induction ts arbitrary: i)
  case Nil
  then show ?case by simp
next
  case (Cons t ts)
  then show ?case by (cases i) (auto simp: unsent_def)
qed

lemma map_fst_update: "i < length ts \<Longrightarrow> fst (ts ! i) = cl \<Longrightarrow> map fst (ts[i := (cl, g)]) = map fst ts"
  by (simp add: map_update list_update_same_conv)

lemma fst_nth_update:
  "i < length ts \<Longrightarrow> fst (ts ! i) = cl \<Longrightarrow> fst (ts[i := (cl, g)] ! j) = fst (ts ! j)"
  by (cases "i = j") auto

lemma mass_inv_init: "mass_inv closable (closeInMass lg closable)"
  by (simp add: mass_inv_def closeInMass_def make_chan_def unsent_def length_ranged)

lemma mass_inv_Crashed: "mass_inv closable st \<Longrightarrow> mass_inv closable (st\<lparr>status := Crashed\<rparr>)"
  by (simp add: mass_inv_def)

lemma spawn_cases:
  assumes "spawn st = Some st'"
  obtains (started) i c rest n p where
      "status st = Populating" "todo st = (i, c) # rest" "getPkgPath c = Returns (n, p)"
      "st' = st\<lparr>todo := rest,
                tasks := tasks st @ [(\<lparr>Index = i, C = c, Name = n, PKGPath = p\<rparr>, Closing)],
                sentToClose := AList.update i \<lparr>Index = i, C = c, Name = n, PKGPath = p\<rparr> (sentToClose st)\<rparr>"
    | (crashed) i c rest where
      "status st = Populating" "todo st = (i, c) # rest" "getPkgPath c = Panics"
      "st' = st\<lparr>status := Crashed\<rparr>"
  using assms
  by (auto simp: spawn_def Let_def split: if_splits list.splits outcome.splits prod.splits)

lemma mass_inv_spawn:
  assumes inv: "mass_inv closable st" and sp: "spawn st = Some st'"
  shows "mass_inv closable st'"
  using sp
proof (cases rule: spawn_cases)
  case (crashed i c rest)
  from mass_inv_Crashed [OF inv] show ?thesis by (simp only: crashed(4))
next
  case (started i c rest n p)
  let ?cl = "\<lparr>Index = i, C = c, Name = n, PKGPath = p\<rparr>"
  let ?k = "length (tasks st)"
  from inv have td: "drop ?k (ranged closable) = todo st" by (simp add: mass_inv_def)
  with started(2) have "drop ?k (ranged closable) = (i, c) # rest" by simp
  from drop_eq_Cons [OF this]
  have k: "?k < length closable" and ic: "(i, c) = ranged closable ! ?k"
    and rest: "rest = drop (Suc ?k) (ranged closable)" by (simp_all add: length_ranged)
  from ic k have i: "i = int ?k" and c: "c = closable ! ?k" by (simp_all add: nth_ranged)
  have w: "wraps closable ?k ?cl" using k i c started(3) by (simp add: wraps_def)
  from inv have ent: "\<forall>kc \<in> set (sentToClose st).
         \<exists>j < ?k. fst kc = int j \<and> snd kc = fst (tasks st ! j)" by (simp add: mass_inv_def)
  then have fresh: "i \<notin> fst ` set (sentToClose st)" using i by fastforce
  then have upd: "AList.update i ?cl (sentToClose st) = sentToClose st @ [(i, ?cl)]"
    by (rule update_fresh)
  have s1: "sentToClose st' = sentToClose st @ [(i, ?cl)]" using started(4) upd by simp
  have s2: "tasks st' = tasks st @ [(?cl, Closing)]" using started(4) by simp
  have s3: "todo st' = rest" "doneClosers st' = doneClosers st" "count_var st' = count_var st"
    "status st' = Populating" using started(1,4) by simp_all
  have p1: "\<not> closed (doneClosers st') \<and> cap (doneClosers st') = length closable"
    using inv s3 by (simp add: mass_inv_def)
  have p2: "length (tasks st') \<le> length closable" using k s2 by simp
  have p3: "drop (length (tasks st')) (ranged closable) = todo st'" using rest s2 s3 by simp
  have p4: "\<forall>j < length (tasks st'). wraps closable j (fst (tasks st' ! j))"
  proof (intro allI impI)
    fix j assume "j < length (tasks st')"
    then have "j < ?k \<or> j = ?k" using s2 by auto
    then show "wraps closable j (fst (tasks st' ! j))"
    proof
      assume "j < ?k"
      with inv show ?thesis by (simp add: mass_inv_def s2 nth_append)
    next
      assume "j = ?k"
      with w show ?thesis by (simp add: s2)
    qed
  qed
  have p5: "count_var st' = int (length (sentToClose st')) + int (length (todo st'))"
    using inv started(2) s1 s3 by (simp add: mass_inv_def)
  have p6: "distinct (map fst (sentToClose st'))"
    using inv fresh s1 by (simp add: mass_inv_def)
  have p7: "\<forall>kc \<in> set (sentToClose st').
         \<exists>j < length (tasks st'). fst kc = int j \<and> snd kc = fst (tasks st' ! j)"
  proof
    fix kc assume "kc \<in> set (sentToClose st')"
    then have "kc \<in> set (sentToClose st) \<or> kc = (i, ?cl)" using s1 by auto
    then show "\<exists>j < length (tasks st'). fst kc = int j \<and> snd kc = fst (tasks st' ! j)"
    proof
      assume "kc \<in> set (sentToClose st)"
      with ent obtain j where "j < ?k" "fst kc = int j" "snd kc = fst (tasks st ! j)" by blast
      then show ?thesis by (intro exI [of _ j]) (simp add: s2 nth_append)
    next
      assume "kc = (i, ?cl)"
      then show ?thesis by (intro exI [of _ ?k]) (simp add: s2 i)
    qed
  qed
  have p8: "mset (map snd (sentToClose st')) =
      mset (buf (doneClosers st')) + mset (unsent (tasks st'))"
    using inv s1 s2 s3 by (simp add: mass_inv_def unsent_append)
  have p9: "length (sentToClose st') \<le> length (tasks st')"
    using inv s1 s2 by (simp add: mass_inv_def)
  have p10: "map (\<lambda>c. (Index c, c)) (map fst (tasks st')) = sentToClose st'"
    using inv started(1) s1 s2 by (simp add: mass_inv_def)
  from p1 p2 p3 p4 p5 p6 p7 p8 p9 p10 s3(4) show ?thesis
    unfolding mass_inv_def by simp
qed

lemma mass_inv_new_timer:
  assumes inv: "mass_inv closable st" and nt: "new_timer st = Some st'"
  shows "mass_inv closable st'"
proof -
  from nt have p: "status st = Populating" and t: "todo st = []"
    and st': "st' = st\<lparr>status := Looping\<rparr>"
    by (auto simp: new_timer_def split: if_splits)
  from inv t have "length closable \<le> length (tasks st)"
    by (simp add: mass_inv_def length_ranged)
  moreover have "sentToClose st = [] \<longrightarrow> tasks st = []"
  proof -
    from inv p have "map (\<lambda>c. (Index c, c)) (map fst (tasks st)) = sentToClose st"
      by (simp add: mass_inv_def)
    then have "length (sentToClose st) = length (tasks st)" by (metis length_map)
    then show ?thesis by auto
  qed
  ultimately have ne: "sentToClose st \<noteq> [] \<or> closable = []" by auto
  from inv t ne show ?thesis unfolding st' mass_inv_def by simp
qed

lemma close_returns_cases:
  assumes "close_returns i r st = Some st'"
  obtains (returned) cl where
      "status st \<noteq> Crashed" "i < length (tasks st)" "tasks st ! i = (cl, Closing)"
      "C cl \<noteq> NilIface"
      "st' = st\<lparr>tasks := (tasks st)[i := (cl, AtSend)],
                logs := logs st @ (case r of None \<Rightarrow> [] | Some e \<Rightarrow> [(Error, [ErrVal e])])\<rparr>"
    | (crashed) "st' = st\<lparr>status := Crashed\<rparr>"
  using assms
  by (auto simp: close_returns_def split: if_splits prod.splits gstate.splits)

lemma mass_inv_close_returns:
  assumes inv: "mass_inv closable st" and cr: "close_returns i r st = Some st'"
  shows "mass_inv closable st'"
  using cr
proof (cases rule: close_returns_cases)
  case crashed
  from mass_inv_Crashed [OF inv] show ?thesis by (simp only: crashed)
next
  case (returned cl)
  have f: "fst (tasks st ! i) = cl" using returned(3) by simp
  have m: "map fst ((tasks st)[i := (cl, AtSend)]) = map fst (tasks st)"
    using returned(2) f by (rule map_fst_update)
  have n: "\<And>j. fst ((tasks st)[i := (cl, AtSend)] ! j) = fst (tasks st ! j)"
    using returned(2) f by (rule fst_nth_update)
  have u: "unsent ((tasks st)[i := (cl, AtSend)]) = unsent (tasks st)"
    using returned(2,3) by (rule unsent_AtSend)
  from inv show ?thesis unfolding returned(5) mass_inv_def by (simp add: m n u)
qed

lemma send_done_cases:
  assumes "send_done i st = Some st'"
  obtains (sent) cl where
      "status st \<noteq> Crashed" "i < length (tasks st)" "tasks st ! i = (cl, AtSend)"
      "\<not> closed (doneClosers st)" "length (buf (doneClosers st)) < cap (doneClosers st)"
      "st' = st\<lparr>doneClosers := (doneClosers st)\<lparr>buf := buf (doneClosers st) @ [cl]\<rparr>,
                tasks := (tasks st)[i := (cl, Finished)]\<rparr>"
    | (crashed) "st' = st\<lparr>status := Crashed\<rparr>"
  using assms
  by (auto simp: send_done_def chan_send_def
           split: if_splits prod.splits gstate.splits outcome.splits)

lemma mass_inv_send_done:
  assumes inv: "mass_inv closable st" and sd: "send_done i st = Some st'"
  shows "mass_inv closable st'"
  using sd
proof (cases rule: send_done_cases)
  case crashed
  from mass_inv_Crashed [OF inv] show ?thesis by (simp only: crashed)
next
  case (sent cl)
  have f: "fst (tasks st ! i) = cl" using sent(3) by simp
  have m: "map fst ((tasks st)[i := (cl, Finished)]) = map fst (tasks st)"
    using sent(2) f by (rule map_fst_update)
  have n: "\<And>j. fst ((tasks st)[i := (cl, Finished)] ! j) = fst (tasks st ! j)"
    using sent(2) f by (rule fst_nth_update)
  have u: "mset (unsent (tasks st)) = mset (unsent ((tasks st)[i := (cl, Finished)])) + {#cl#}"
    using unsent_Finished [OF sent(2,3)] by simp
  from inv show ?thesis unfolding sent(6) mass_inv_def by (simp add: m n u)
qed

lemma mass_inv_timer_fires:
  assumes inv: "mass_inv closable st" and tf: "timer_fires ord st = Some st'"
  shows "mass_inv closable st'"
proof -
  from tf have l: "status st = Looping"
    and st': "st' = st\<lparr>logs := logs st
                     @ [(Warn, [Num (count_var st), Str '' object(s) remaining but timer expired.''])]
                     @ map (\<lambda>j. failed_entry (sentToClose st ! j)) ord,
                   status := Returned (Some ''failed to close all objects'')\<rparr>"
    by (auto simp: timer_fires_def split: if_splits)
  from inv l show ?thesis unfolding st' mass_inv_def by simp
qed

lemma recv_done_cases:
  assumes "recv_done st = Some st'" and "\<not> closed (doneClosers st)"
  obtains cl rest where
      "status st = Looping" "buf (doneClosers st) = cl # rest"
      "sentToClose st' = AList.delete (Index cl) (sentToClose st)"
      "count_var st' = count_var st - 1"
      "doneClosers st' = (doneClosers st)\<lparr>buf := rest\<rparr>"
      "tasks st' = tasks st" "todo st' = todo st"
      "status st' = (if count_var st' = 0 \<and> length (sentToClose st') = 0
                     then Returned None else Looping)"
      "logs st' = logs st @ [(Debug, [Num (count_var st'), Str '' object(s) left''])]
         @ (if count_var st' = 0 \<and> length (sentToClose st') = 0
            then [(Debug, [Str ''Finished closing objects''])] else [])"
  using assms
  by (auto simp: recv_done_def chan_recv_def Let_def
           split: if_splits list.splits outcome.splits prod.splits)

lemma mass_inv_recv_done:
  assumes inv: "mass_inv closable st" and rd: "recv_done st = Some st'"
  shows "mass_inv closable st'"
proof -
  from inv have nc: "\<not> closed (doneClosers st)" by (simp add: mass_inv_def)
  from rd nc show ?thesis
  proof (cases rule: recv_done_cases)
    case (1 cl rest)
    from inv 1(2) have "cl \<in># image_mset snd (mset (sentToClose st))"
      by (simp add: mass_inv_def)
    then obtain kc where kc: "kc \<in> set (sentToClose st)" and sk: "snd kc = cl" by auto
    from inv kc obtain j where j: "j < length (tasks st)" "fst kc = int j"
      "snd kc = fst (tasks st ! j)" unfolding mass_inv_def by blast
    from inv j(1) have "wraps closable j (fst (tasks st ! j))" by (simp add: mass_inv_def)
    with j sk have ix: "Index cl = fst kc" by (simp add: wraps_def)
    with kc sk have mem: "(Index cl, cl) \<in> set (sentToClose st)" by (cases kc) auto
    from inv have d: "distinct (map fst (sentToClose st))" by (simp add: mass_inv_def)
    have ms: "mset (sentToClose st') + {#(Index cl, cl)#} = mset (sentToClose st)"
      using mset_delete_entry [OF d mem] 1(3) by simp
    have len: "Suc (length (sentToClose st')) = length (sentToClose st)"
      using arg_cong [OF ms, of size] by simp
    have ms2: "mset (map snd (sentToClose st')) + {#cl#} = mset (map snd (sentToClose st))"
      using arg_cong [OF ms, of "image_mset snd"] by simp
    from inv 1(1) have t: "todo st = []" by (simp add: mass_inv_def)
    have p5: "count_var st' = int (length (sentToClose st')) + int (length (todo st'))"
      using inv len 1(4,7) t by (simp add: mass_inv_def)
    have p6: "distinct (map fst (sentToClose st'))"
      using d 1(3) by (simp add: distinct_delete)
    have sub: "set (sentToClose st') \<subseteq> set (sentToClose st)"
      using 1(3) set_delete_subset by metis
    have p7: "\<forall>kc \<in> set (sentToClose st').
         \<exists>j < length (tasks st'). fst kc = int j \<and> snd kc = fst (tasks st' ! j)"
      using inv sub 1(6) unfolding mass_inv_def by auto
    have p8: "mset (map snd (sentToClose st')) =
        mset (buf (doneClosers st')) + mset (unsent (tasks st'))"
    proof -
      from inv have "mset (map snd (sentToClose st)) =
        mset (buf (doneClosers st)) + mset (unsent (tasks st))" by (simp add: mass_inv_def)
      with ms2 1(2) have "mset (map snd (sentToClose st')) + {#cl#} =
        (mset rest + mset (unsent (tasks st))) + {#cl#}" by simp
      then have "mset (map snd (sentToClose st')) = mset rest + mset (unsent (tasks st))"
        by (simp only: add_right_cancel)
      then show ?thesis by (simp add: 1(5,6))
    qed
    have p9: "length (sentToClose st') \<le> length (tasks st')"
      using inv len 1(6) by (simp add: mass_inv_def)
    have p1: "\<not> closed (doneClosers st') \<and> cap (doneClosers st') = length closable \<and>
      length (tasks st') \<le> length closable \<and>
      drop (length (tasks st')) (ranged closable) = todo st' \<and>
      (\<forall>i < length (tasks st'). wraps closable i (fst (tasks st' ! i)))"
      using inv 1(5,6,7) by (simp add: mass_inv_def)
    have p10: "status st' \<noteq> Populating \<and> status st' \<noteq> Crashed \<and> todo st' = []"
      using 1(7,8) t by simp
    have p11: "(status st' = Looping \<or> (\<exists>m. status st' = Returned (Some m)) \<longrightarrow>
         sentToClose st' \<noteq> [] \<or> closable = []) \<and>
      (status st' = Returned None \<longrightarrow> sentToClose st' = [])"
      using 1(8) p5 p10 by (auto split: if_splits)
    from p1 p5 p6 p7 p8 p9 p10 p11 show ?thesis unfolding mass_inv_def by simp
  qed
qed

lemma mass_inv_step: "mass_inv closable st \<Longrightarrow> step a st = Some st' \<Longrightarrow> mass_inv closable st'"
  by (cases a)
     (auto intro: mass_inv_spawn mass_inv_new_timer mass_inv_close_returns mass_inv_send_done
        mass_inv_recv_done mass_inv_timer_fires)

lemma mass_inv_exec: "mass_inv closable st \<Longrightarrow> exec as st = Some st' \<Longrightarrow> mass_inv closable st'"
proof (induction as arbitrary: st)
  case Nil
  then show ?case by simp
next
  case (Cons a as)
  then show ?case by (cases "step a st") (auto dest: mass_inv_step)
qed

lemma reachable_mass_inv:
  "exec as (closeInMass lg closable) = Some st \<Longrightarrow> mass_inv closable st"
  using mass_inv_exec [OF mass_inv_init] .

section \<open>The mass close: claims\<close>

lemma exec_append:
  "exec (as @ bs) st = (case exec as st of None \<Rightarrow> None | Some st' \<Rightarrow> exec bs st')"
  by (induction as arbitrary: st) (auto split: option.splits)

lemmas mass_defs = closeInMass_def ranged_def make_chan_def spawn_def new_timer_def
  close_returns_def send_done_def recv_done_def timer_fires_def chan_send_def chan_recv_def
  getPkgPath_def failed_entry_def Let_def

lemmas run_defs = mass_defs file_a_def conn_b_def

subsection \<open>A completion can always be sent\<close>

lemma inv_AtSend_room:
  assumes inv: "mass_inv closable st" and i: "i < length (tasks st)"
    and t: "tasks st ! i = (cl, AtSend)"
  shows "length (buf (doneClosers st)) < cap (doneClosers st)"
proof -
  from i t have "(cl, AtSend) \<in> set (tasks st)" by (metis nth_mem)
  then have "cl \<in> set (unsent (tasks st))" by (force simp: unsent_def)
  then have "0 < length (unsent (tasks st))" by (cases "unsent (tasks st)") auto
  moreover from inv have "mset (map snd (sentToClose st)) =
      mset (buf (doneClosers st)) + mset (unsent (tasks st))" by (simp add: mass_inv_def)
  from arg_cong [OF this, of size]
  have "length (sentToClose st) = length (buf (doneClosers st)) + length (unsent (tasks st))"
    by simp
  moreover from inv have "length (sentToClose st) \<le> length (tasks st)"
    "length (tasks st) \<le> length closable" "cap (doneClosers st) = length closable"
    by (simp_all add: mass_inv_def)
  ultimately show ?thesis by linarith
qed

lemma send_done_enabled:
  assumes inv: "mass_inv closable st" and i: "i < length (tasks st)"
    and t: "tasks st ! i = (cl, AtSend)" and nc: "status st \<noteq> Crashed"
  shows "send_done i st =
    Some (st\<lparr>doneClosers := (doneClosers st)\<lparr>buf := buf (doneClosers st) @ [cl]\<rparr>,
             tasks := (tasks st)[i := (cl, Finished)]\<rparr>)"
proof -
  from inv have "\<not> closed (doneClosers st)" by (simp add: mass_inv_def)
  with inv_AtSend_room [OF inv i t] i t nc show ?thesis
    by (simp add: send_done_def chan_send_def)
qed

text \<open>
  C10: the completion channel has the capacity of the batch. In every state of
  a call, also after \<^verbatim>\<open>closeInMass\<close> has returned its timeout error, a
  goroutine that stands at its send can send at once: the channel has room.
  The send is its last step, so each goroutine sends exactly once.
\<close>

theorem completion_send_never_blocks:
  "exec as (closeInMass lg closable) = Some st \<Longrightarrow>
     cap (doneClosers st) = length closable \<and>
     (\<forall>i cl. i < length (tasks st) \<longrightarrow> tasks st ! i = (cl, AtSend) \<longrightarrow> status st \<noteq> Crashed \<longrightarrow>
        (\<exists>st'. step (Send i) st = Some st' \<and> status st' = status st \<and>
           buf (doneClosers st') = buf (doneClosers st) @ [cl] \<and>
           tasks st' = (tasks st)[i := (cl, Finished)] \<and>
           step (Send i) st' = None)) \<and>
     (\<forall>i cl. i < length (tasks st) \<longrightarrow> tasks st ! i = (cl, Finished) \<longrightarrow>
        step (Send i) st = None \<and> (\<forall>r. step (CloseReturns i r) st = None))"
proof -
  assume r: "exec as (closeInMass lg closable) = Some st"
  then have inv: "mass_inv closable st" by (rule reachable_mass_inv)
  then have a: "cap (doneClosers st) = length closable" by (simp add: mass_inv_def)
  have b: "\<forall>i cl. i < length (tasks st) \<longrightarrow> tasks st ! i = (cl, AtSend) \<longrightarrow> status st \<noteq> Crashed \<longrightarrow>
        (\<exists>st'. step (Send i) st = Some st' \<and> status st' = status st \<and>
           buf (doneClosers st') = buf (doneClosers st) @ [cl] \<and>
           tasks st' = (tasks st)[i := (cl, Finished)] \<and>
           step (Send i) st' = None)"
  proof (intro allI impI)
    fix i cl
    assume i: "i < length (tasks st)" and t: "tasks st ! i = (cl, AtSend)"
      and nc: "status st \<noteq> Crashed"
    let ?st' = "st\<lparr>doneClosers := (doneClosers st)\<lparr>buf := buf (doneClosers st) @ [cl]\<rparr>,
             tasks := (tasks st)[i := (cl, Finished)]\<rparr>"
    have s: "step (Send i) st = Some ?st'" using send_done_enabled [OF inv i t nc] by simp
    have n: "step (Send i) ?st' = None" using i by (simp add: send_done_def)
    show "\<exists>st'. step (Send i) st = Some st' \<and> status st' = status st \<and>
           buf (doneClosers st') = buf (doneClosers st) @ [cl] \<and>
           tasks st' = (tasks st)[i := (cl, Finished)] \<and>
           step (Send i) st' = None"
      using s n by (intro exI [of _ ?st']) simp
  qed
  have c: "\<forall>i cl. i < length (tasks st) \<longrightarrow> tasks st ! i = (cl, Finished) \<longrightarrow>
        step (Send i) st = None \<and> (\<forall>r. step (CloseReturns i r) st = None)"
    by (auto simp: send_done_def close_returns_def)
  from a b c show ?thesis by blast
qed

theorem completion_send_never_blocks_witness:
  "\<exists>st cl. exec [Spawn, Spawn, NewTimer, CloseReturns 0 None, TimerFires [1, 0],
              CloseReturns 1 None]
           (closeInMass ([] :: nat entry list) [file_a, conn_b]) = Some st \<and>
     status st = Returned (Some ''failed to close all objects'') \<and>
     cap (doneClosers st) = 2 \<and> tasks st ! 1 = (cl, AtSend) \<and>
     (\<exists>st'. step (Send 1) st = Some st' \<and> buf (doneClosers st') = [cl] \<and>
        step (Send 1) st' = None)"
proof -
  obtain st where e: "exec [Spawn, Spawn, NewTimer, CloseReturns 0 None, TimerFires [1, 0],
              CloseReturns 1 None]
           (closeInMass ([] :: nat entry list) [file_a, conn_b]) = Some st"
    by (simp add: run_defs)
  from e have r: "status st = Returned (Some ''failed to close all objects'')"
    and n: "1 < length (tasks st)" and b: "buf (doneClosers st) = []"
    by (auto simp: run_defs)
  from e obtain cl where t: "tasks st ! 1 = (cl, AtSend)" by (auto simp: run_defs)
  from r have nc: "status st \<noteq> Crashed" by simp
  note th = completion_send_never_blocks [OF e]
  from th have c: "cap (doneClosers st) = 2" by simp
  from th n t nc obtain st' where s: "step (Send 1) st = Some st'"
    and b': "buf (doneClosers st') = buf (doneClosers st) @ [cl]"
    and s': "step (Send 1) st' = None" by blast
  from b b' have "buf (doneClosers st') = [cl]" by simp
  with e r t c s s' show ?thesis by blast
qed

subsection \<open>A completion received\<close>

text \<open>
  C2: in the \<^verbatim>\<open>select\<close> loop a completion that is received removes its
  index, which was present, from \<open>sentToClose\<close>, so that the map loses exactly
  one entry, and takes one off \<open>count\<close>, which stays the size of the map.
  When \<open>count\<close> reaches zero the same step returns nil; no timer step is
  needed. Otherwise the loop goes on.
\<close>

theorem completion_received:
  "exec as (closeInMass lg closable) = Some st \<Longrightarrow> status st = Looping \<Longrightarrow>
   buf (doneClosers st) = cl # rest \<Longrightarrow>
     (\<exists>st'. step Recv st = Some st' \<and>
        sentToClose st' = AList.delete (Index cl) (sentToClose st) \<and>
        Index cl \<in> fst ` set (sentToClose st) \<and>
        Index cl \<notin> fst ` set (sentToClose st') \<and>
        Suc (length (sentToClose st')) = length (sentToClose st) \<and>
        count_var st' = count_var st - 1 \<and>
        count_var st' = int (length (sentToClose st')) \<and>
        status st' = (if count_var st' = 0 then Returned None else Looping))"
proof -
  assume r: "exec as (closeInMass lg closable) = Some st" and l: "status st = Looping"
    and b: "buf (doneClosers st) = cl # rest"
  from r have inv: "mass_inv closable st" by (rule reachable_mass_inv)
  then have nc: "\<not> closed (doneClosers st)" by (simp add: mass_inv_def)
  from l b have "recv_done st \<noteq> None"
    by (simp add: recv_done_def chan_recv_def Let_def)
  then obtain st' where s: "recv_done st = Some st'" by auto
  from mass_inv_recv_done [OF inv s] have inv': "mass_inv closable st'" .
  from s nc show ?thesis
  proof (cases rule: recv_done_cases)
    case (1 cl' rest')
    with b have cl: "cl' = cl" by simp
    from inv l have t: "todo st = []" by (simp add: mass_inv_def)
    with inv have c: "count_var st = int (length (sentToClose st))" by (simp add: mass_inv_def)
    from inv' 1(7) t have c': "count_var st' = int (length (sentToClose st'))"
      by (simp add: mass_inv_def)
    from c c' 1(4) have len: "Suc (length (sentToClose st')) = length (sentToClose st)" by simp
    have out: "Index cl \<notin> fst ` set (sentToClose st')"
      using 1(3) cl by (simp add: delete_notin_dom)
    have "Index cl \<in> fst ` set (sentToClose st)"
    proof (rule ccontr)
      assume "Index cl \<notin> fst ` set (sentToClose st)"
      then have "AList.delete (Index cl) (sentToClose st) = sentToClose st" by simp
      with 1(3) cl len show False by simp
    qed
    moreover have "status st' = (if count_var st' = 0 then Returned None else Looping)"
      using 1(8) c' by simp
    moreover have "sentToClose st' = AList.delete (Index cl) (sentToClose st)"
      using 1(3) cl by simp
    moreover have "step Recv st = Some st'" using s by simp
    ultimately show ?thesis using 1(4) c' len out by blast
  qed
qed

theorem completion_received_witness:
  "\<exists>st cl. exec [Spawn, NewTimer, CloseReturns 0 None, Send 0]
           (closeInMass ([] :: nat entry list) [file_a]) = Some st \<and>
     status st = Looping \<and> buf (doneClosers st) = [cl] \<and>
     (\<exists>st'. step Recv st = Some st' \<and> sentToClose st' = [] \<and> count_var st' = 0 \<and>
        status st' = Returned None)"
proof -
  obtain st where e: "exec [Spawn, NewTimer, CloseReturns 0 None, Send 0]
           (closeInMass ([] :: nat entry list) [file_a]) = Some st"
    by (simp add: run_defs)
  from e have l: "status st = Looping" by (auto simp: run_defs)
  from e obtain cl where b: "buf (doneClosers st) = [cl]" by (auto simp: run_defs)
  from e have n: "length (sentToClose st) = 1" by (auto simp: run_defs)
  from completion_received [OF e l b] obtain st' where s: "step Recv st = Some st'"
    and len: "Suc (length (sentToClose st')) = length (sentToClose st)"
    and c: "count_var st' = int (length (sentToClose st'))"
    and t: "status st' = (if count_var st' = 0 then Returned None else Looping)" by blast
  from len n have "sentToClose st' = []" by simp
  with c t have "count_var st' = 0" "status st' = Returned None" by simp_all
  with e l b s \<open>sentToClose st' = []\<close> show ?thesis by blast
qed

subsection \<open>The pending set only shrinks\<close>

lemma recv_done_frame:
  "recv_done st = Some st' \<Longrightarrow>
     todo st' = todo st \<and> set (sentToClose st') \<subseteq> set (sentToClose st)"
  unfolding recv_done_def Let_def
  by (cases "chan_recv (doneClosers st)")
     (auto dest: set_delete_subset [THEN subsetD] split: if_splits prod.splits)

lemma step_after_population:
  assumes "todo st = []" and "step a st = Some st'"
  shows "todo st' = [] \<and> set (sentToClose st') \<subseteq> set (sentToClose st) \<and>
     (sentToClose st' = sentToClose st \<or> a = Recv)"
proof (cases a)
  case Spawn
  with assms show ?thesis by (simp add: spawn_def split: if_splits)
next
  case NewTimer
  with assms show ?thesis by (auto simp: new_timer_def split: if_splits)
next
  case (CloseReturns i r)
  with assms have "close_returns i r st = Some st'" by simp
  then show ?thesis using assms(1) by (cases rule: close_returns_cases) simp_all
next
  case (Send i)
  with assms have "send_done i st = Some st'" by simp
  then show ?thesis using assms(1) by (cases rule: send_done_cases) simp_all
next
  case Recv
  with assms have "recv_done st = Some st'" by simp
  from recv_done_frame [OF this] assms(1) Recv show ?thesis by simp
next
  case (TimerFires ord)
  with assms show ?thesis by (auto simp: timer_fires_def split: if_splits)
qed

lemma exec_after_population:
  "todo st = [] \<Longrightarrow> exec bs st = Some st' \<Longrightarrow>
     todo st' = [] \<and> set (sentToClose st') \<subseteq> set (sentToClose st)"
proof (induction bs arbitrary: st)
  case Nil
  then show ?case by simp
next
  case (Cons a bs)
  from Cons.prems obtain st1 where a: "step a st = Some st1" and b: "exec bs st1 = Some st'"
    by (cases "step a st") auto
  from step_after_population [OF Cons.prems(1) a] Cons.IH [OF _ b] show ?case by blast
qed

lemma populated_length:
  assumes inv: "mass_inv closable st" and p: "status st = Populating" and t: "todo st = []"
  shows "length (tasks st) = length closable" "length (sentToClose st) = length closable"
    "sentToClose st = map (\<lambda>c. (Index c, c)) (map fst (tasks st))"
proof -
  from inv t have "length closable \<le> length (tasks st)"
    by (simp add: mass_inv_def length_ranged)
  with inv show a: "length (tasks st) = length closable" by (simp add: mass_inv_def)
  from inv p show b: "sentToClose st = map (\<lambda>c. (Index c, c)) (map fst (tasks st))"
    by (simp add: mass_inv_def)
  then have "length (sentToClose st) = length (tasks st)" by (metis length_map)
  with a show "length (sentToClose st) = length closable" by simp
qed

text \<open>
  C7: from the end of the population on (\<open>todo\<close> is empty), when the map has
  one entry per resource, every later state holds a subset of the entries:
  none is added and none replaced. Only a received completion changes the
  map, and it removes exactly one entry. \<open>count\<close> is the number of entries
  at the end of the population and in every later state.
\<close>

theorem pending_set_shrinks:
  "exec as (closeInMass lg closable) = Some st \<Longrightarrow> todo st = [] \<Longrightarrow>
   exec bs st = Some st' \<Longrightarrow>
     (status st = Populating \<longrightarrow> length (sentToClose st) = length closable) \<and>
     set (sentToClose st') \<subseteq> set (sentToClose st) \<and>
     count_var st = int (length (sentToClose st)) \<and>
     count_var st' = int (length (sentToClose st')) \<and>
     (\<forall>a st''. step a st' = Some st'' \<longrightarrow>
        sentToClose st'' = sentToClose st' \<or>
        a = Recv \<and> set (sentToClose st'') \<subseteq> set (sentToClose st') \<and>
          Suc (length (sentToClose st'')) = length (sentToClose st'))"
proof -
  assume r: "exec as (closeInMass lg closable) = Some st" and t: "todo st = []"
    and r': "exec bs st = Some st'"
  from r have inv: "mass_inv closable st" by (rule reachable_mass_inv)
  from mass_inv_exec [OF inv r'] have inv': "mass_inv closable st'" .
  from exec_after_population [OF t r']
  have t': "todo st' = []" and sub: "set (sentToClose st') \<subseteq> set (sentToClose st)"
    by simp_all
  have a: "status st = Populating \<longrightarrow> length (sentToClose st) = length closable"
    using populated_length(2) [OF inv _ t] by simp
  have c: "count_var st = int (length (sentToClose st))"
    using inv t by (simp add: mass_inv_def)
  have c': "count_var st' = int (length (sentToClose st'))"
    using inv' t' by (simp add: mass_inv_def)
  have d: "\<forall>a st''. step a st' = Some st'' \<longrightarrow>
        sentToClose st'' = sentToClose st' \<or>
        a = Recv \<and> set (sentToClose st'') \<subseteq> set (sentToClose st') \<and>
          Suc (length (sentToClose st'')) = length (sentToClose st')"
  proof (intro allI impI)
    fix a st'' assume s: "step a st' = Some st''"
    from step_after_population [OF t' s]
    have sub': "set (sentToClose st'') \<subseteq> set (sentToClose st')"
      and alt: "sentToClose st'' = sentToClose st' \<or> a = Recv" by simp_all
    show "sentToClose st'' = sentToClose st' \<or>
        a = Recv \<and> set (sentToClose st'') \<subseteq> set (sentToClose st') \<and>
          Suc (length (sentToClose st'')) = length (sentToClose st')"
    proof (cases "a = Recv")
      case False
      with alt show ?thesis by simp
    next
      case True
      from inv' have nc: "\<not> closed (doneClosers st')" by (simp add: mass_inv_def)
      from s True have rd: "recv_done st' = Some st''" by simp
      from mass_inv_recv_done [OF inv' rd] have inv'': "mass_inv closable st''" .
      from rd nc have "count_var st'' = count_var st' - 1 \<and> todo st'' = todo st'"
        by (cases rule: recv_done_cases) simp
      with inv'' t' c' have "Suc (length (sentToClose st'')) = length (sentToClose st')"
        by (simp add: mass_inv_def)
      with True sub' show ?thesis by simp
    qed
  qed
  from a sub c c' d show ?thesis by blast
qed

theorem pending_set_shrinks_witness:
  "\<exists>st st'. exec [Spawn, Spawn] (closeInMass ([] :: nat entry list) [file_a, conn_b]) = Some st \<and>
     todo st = [] \<and>
     exec [NewTimer, CloseReturns 1 None, Send 1, Recv] st = Some st' \<and>
     length (sentToClose st) = 2 \<and> count_var st = 2 \<and>
     set (sentToClose st') \<subseteq> set (sentToClose st) \<and>
     length (sentToClose st') = 1 \<and> count_var st' = 1"
proof -
  obtain st where e: "exec [Spawn, Spawn] (closeInMass ([] :: nat entry list) [file_a, conn_b]) = Some st"
    by (simp add: run_defs)
  from e have t: "todo st = []" and p: "status st = Populating" by (auto simp: run_defs)
  from e obtain st' where e': "exec [NewTimer, CloseReturns 1 None, Send 1, Recv] st = Some st'"
    by (auto simp: run_defs)
  from e e' have n: "length (sentToClose st') = 1" by (auto simp: run_defs)
  from pending_set_shrinks [OF e t e'] p n
  have "length (sentToClose st) = 2" "count_var st = 2" "count_var st' = 1"
    "set (sentToClose st') \<subseteq> set (sentToClose st)" by simp_all
  with e t e' n show ?thesis by blast
qed

subsection \<open>Errors of Close are absorbed\<close>

lemma inv_C_not_nil:
  assumes "mass_inv closable st" and "i < length (tasks st)"
  shows "C (fst (tasks st ! i)) \<noteq> NilIface"
proof -
  from assms have "wraps closable i (fst (tasks st ! i))" by (simp add: mass_inv_def)
  then have "getPkgPath (C (fst (tasks st ! i))) \<noteq> Panics" by (simp add: wraps_def)
  then show ?thesis by (auto simp: getPkgPath_def)
qed

lemma close_returns_enabled:
  assumes inv: "mass_inv closable st" and i: "i < length (tasks st)"
    and t: "tasks st ! i = (cl, Closing)" and nc: "status st \<noteq> Crashed"
  shows "close_returns i r st =
    Some (st\<lparr>tasks := (tasks st)[i := (cl, AtSend)],
             logs := logs st @ (case r of None \<Rightarrow> [] | Some e \<Rightarrow> [(Error, [ErrVal e])])\<rparr>)"
proof -
  from inv_C_not_nil [OF inv i] t have "C cl \<noteq> NilIface" by simp
  with i t nc show ?thesis by (simp add: close_returns_def)
qed

lemma close_returns_status:
  assumes inv: "mass_inv closable st" and s: "close_returns i r st = Some st'"
  shows "status st' = status st"
proof -
  from s obtain cl where i: "i < length (tasks st)" and t: "tasks st ! i = (cl, Closing)"
    and nc: "status st \<noteq> Crashed"
    by (auto simp: close_returns_def split: if_splits prod.splits gstate.splits)
  from close_returns_enabled [OF inv i t nc, of r] s show ?thesis by auto
qed

lemma send_done_status:
  assumes inv: "mass_inv closable st" and s: "send_done i st = Some st'"
  shows "status st' = status st"
proof -
  from s obtain cl where i: "i < length (tasks st)" and t: "tasks st ! i = (cl, AtSend)"
    and nc: "status st \<noteq> Crashed"
    by (auto simp: send_done_def split: if_splits prod.splits gstate.splits)
  from send_done_enabled [OF inv i t nc] s show ?thesis by auto
qed

lemma step_keeps_error:
  assumes inv: "mass_inv closable st" and s: "step a st = Some st'"
    and nt: "\<forall>ord. a \<noteq> TimerFires ord"
  shows "(\<exists>m. status st' = Returned (Some m)) = (\<exists>m. status st = Returned (Some m))"
proof (cases a)
  case Spawn
  with s have "spawn st = Some st'" by simp
  then show ?thesis by (cases rule: spawn_cases) simp_all
next
  case NewTimer
  with s show ?thesis by (auto simp: new_timer_def split: if_splits)
next
  case (CloseReturns i r)
  with s close_returns_status [OF inv] show ?thesis by simp
next
  case (Send i)
  with s send_done_status [OF inv] show ?thesis by simp
next
  case Recv
  from inv have nc: "\<not> closed (doneClosers st)" by (simp add: mass_inv_def)
  from Recv s have "recv_done st = Some st'" by simp
  then show ?thesis using nc by (cases rule: recv_done_cases) simp
next
  case (TimerFires ord)
  with nt show ?thesis by simp
qed

lemma error_iff_timer:
  "exec as (closeInMass lg closable) = Some st \<Longrightarrow>
     (\<exists>m. status st = Returned (Some m)) = (\<exists>ord. TimerFires ord \<in> set as)"
proof (induction as arbitrary: st rule: rev_induct)
  case Nil
  then show ?case by (auto simp: closeInMass_def)
next
  case (snoc a as)
  from snoc.prems obtain st1 where e: "exec as (closeInMass lg closable) = Some st1"
    and s: "step a st1 = Some st"
    by (auto simp: exec_append split: option.splits)
  from e have inv: "mass_inv closable st1" by (rule reachable_mass_inv)
  show ?case
  proof (cases "\<exists>ord. a = TimerFires ord")
    case True
    then obtain ord where a: "a = TimerFires ord" by blast
    with s have "status st = Returned (Some ''failed to close all objects'')"
      by (auto simp: timer_fires_def split: if_splits)
    with a show ?thesis by auto
  next
    case False
    then have nt: "\<forall>ord. a \<noteq> TimerFires ord" by simp
    from step_keeps_error [OF inv s nt] snoc.IH [OF e] False show ?thesis by auto
  qed
qed

text \<open>
  C3: in every state of a call, when the \<^verbatim>\<open>Close\<close> of a goroutine returns an
  error, the error is logged at error severity, the state of \<^verbatim>\<open>closeInMass\<close>
  is untouched, and the goroutine then sends its completion all the same.
  \<^verbatim>\<open>closeInMass\<close> has returned an error exactly when the timer case was
  taken; and for a batch that is not empty it has returned nil exactly when,
  past the population, every completion has been received, whatever the
  \<^verbatim>\<open>Close\<close> calls returned.
\<close>

theorem close_errors_absorbed:
  "exec as (closeInMass lg closable) = Some st \<Longrightarrow>
     (\<forall>i cl e. status st \<noteq> Crashed \<longrightarrow> i < length (tasks st) \<longrightarrow>
        tasks st ! i = (cl, Closing) \<longrightarrow>
        (\<exists>st1 st2. step (CloseReturns i (Some e)) st = Some st1 \<and>
           logs st1 = logs st @ [(Error, [ErrVal e])] \<and>
           status st1 = status st \<and> sentToClose st1 = sentToClose st \<and>
           count_var st1 = count_var st \<and>
           step (Send i) st1 = Some st2 \<and>
           buf (doneClosers st2) = buf (doneClosers st) @ [cl] \<and>
           status st2 = status st)) \<and>
     ((\<exists>m. status st = Returned (Some m)) \<longleftrightarrow> (\<exists>ord. TimerFires ord \<in> set as)) \<and>
     (closable \<noteq> [] \<longrightarrow>
        (status st = Returned None \<longleftrightarrow>
           status st \<noteq> Populating \<and> status st \<noteq> Crashed \<and> sentToClose st = []))"
proof -
  assume r: "exec as (closeInMass lg closable) = Some st"
  then have inv: "mass_inv closable st" by (rule reachable_mass_inv)
  have a: "\<forall>i cl e. status st \<noteq> Crashed \<longrightarrow> i < length (tasks st) \<longrightarrow>
        tasks st ! i = (cl, Closing) \<longrightarrow>
        (\<exists>st1 st2. step (CloseReturns i (Some e)) st = Some st1 \<and>
           logs st1 = logs st @ [(Error, [ErrVal e])] \<and>
           status st1 = status st \<and> sentToClose st1 = sentToClose st \<and>
           count_var st1 = count_var st \<and>
           step (Send i) st1 = Some st2 \<and>
           buf (doneClosers st2) = buf (doneClosers st) @ [cl] \<and>
           status st2 = status st)"
  proof (intro allI impI)
    fix i cl e
    assume nc: "status st \<noteq> Crashed" and i: "i < length (tasks st)"
      and t: "tasks st ! i = (cl, Closing)"
    let ?st1 = "st\<lparr>tasks := (tasks st)[i := (cl, AtSend)],
             logs := logs st @ [(Error, [ErrVal e])]\<rparr>"
    let ?st2 = "?st1\<lparr>doneClosers := (doneClosers ?st1)\<lparr>buf := buf (doneClosers ?st1) @ [cl]\<rparr>,
             tasks := (tasks ?st1)[i := (cl, Finished)]\<rparr>"
    have s1: "close_returns i (Some e) st = Some ?st1"
      using close_returns_enabled [OF inv i t nc, of "Some e"] by simp
    from mass_inv_close_returns [OF inv s1] have inv1: "mass_inv closable ?st1" .
    have i1: "i < length (tasks ?st1)" using i by simp
    have t1: "tasks ?st1 ! i = (cl, AtSend)" using i by simp
    have nc1: "status ?st1 \<noteq> Crashed" using nc by simp
    have s2: "send_done i ?st1 = Some ?st2"
      by (rule send_done_enabled [OF inv1 i1 t1 nc1])
    show "\<exists>st1 st2. step (CloseReturns i (Some e)) st = Some st1 \<and>
           logs st1 = logs st @ [(Error, [ErrVal e])] \<and>
           status st1 = status st \<and> sentToClose st1 = sentToClose st \<and>
           count_var st1 = count_var st \<and>
           step (Send i) st1 = Some st2 \<and>
           buf (doneClosers st2) = buf (doneClosers st) @ [cl] \<and>
           status st2 = status st"
      using s1 s2 by (intro exI [of _ ?st1] exI [of _ ?st2]) simp
  qed
  have b: "(\<exists>m. status st = Returned (Some m)) \<longleftrightarrow> (\<exists>ord. TimerFires ord \<in> set as)"
    using r by (rule error_iff_timer)
  have c: "closable \<noteq> [] \<longrightarrow>
        (status st = Returned None \<longleftrightarrow>
           status st \<noteq> Populating \<and> status st \<noteq> Crashed \<and> sentToClose st = [])"
  proof
    assume ne: "closable \<noteq> []"
    from inv ne have l: "status st = Looping \<longrightarrow> sentToClose st \<noteq> []"
      and e: "\<And>m. status st = Returned (Some m) \<Longrightarrow> sentToClose st \<noteq> []"
      and n: "status st = Returned None \<longrightarrow> sentToClose st = []"
      by (auto simp: mass_inv_def)
    show "status st = Returned None \<longleftrightarrow>
           status st \<noteq> Populating \<and> status st \<noteq> Crashed \<and> sentToClose st = []"
    proof (cases "status st")
      case (Returned x)
      with e n show ?thesis by (cases x) auto
    qed (use l in auto)
  qed
  from a b c show ?thesis by blast
qed

theorem close_errors_absorbed_witness:
  "\<exists>st. exec [Spawn, Spawn, NewTimer, CloseReturns 0 (Some 7), Send 0,
              CloseReturns 1 (Some 8), Send 1, Recv, Recv]
           (closeInMass ([] :: nat entry list) [file_a, conn_b]) = Some st \<and>
     status st = Returned None \<and> sentToClose st = [] \<and>
     (Error, [ErrVal 7]) \<in> set (logs st) \<and> (Error, [ErrVal 8]) \<in> set (logs st) \<and>
     \<not> (\<exists>m. status st = Returned (Some m))"
proof -
  let ?as = "[Spawn, Spawn, NewTimer, CloseReturns 0 (Some 7), Send 0,
              CloseReturns 1 (Some 8), Send 1, Recv, Recv] :: nat action list"
  obtain st where e: "exec ?as (closeInMass ([] :: nat entry list) [file_a, conn_b]) = Some st"
    by (simp add: run_defs)
  from e have s: "sentToClose st = []" and np: "status st \<noteq> Populating"
    and nc: "status st \<noteq> Crashed"
    and lg: "(Error, [ErrVal 7]) \<in> set (logs st)" "(Error, [ErrVal 8]) \<in> set (logs st)"
    by (auto simp: run_defs)
  have nt: "\<not> (\<exists>ord. TimerFires ord \<in> set ?as)" by simp
  have ne: "[file_a, conn_b] \<noteq> []" by simp
  from close_errors_absorbed [OF e] nt ne s np nc
  have "status st = Returned None" "\<not> (\<exists>m. status st = Returned (Some m))" by blast+
  with e s lg show ?thesis by blast
qed

subsection \<open>One closer and one goroutine for each position\<close>

lemma population_completes:
  "status st = Populating \<Longrightarrow> \<forall>ic \<in> set (todo st). snd ic \<noteq> NilIface \<Longrightarrow>
     \<exists>st'. exec (replicate (length (todo st)) Spawn) st = Some st' \<and>
       status st' = Populating \<and> todo st' = []"
proof (induction "todo st" arbitrary: st)
  case Nil
  then show ?case by simp
next
  case (Cons ic rest)
  obtain i c where ic: "ic = (i, c)" by (cases ic)
  from Cons.hyps(2) Cons.prems(2) ic have "c \<noteq> NilIface" by (metis list.set_intros(1) snd_conv)
  then obtain t v where c: "c = Iface t v" by (cases c) auto
  let ?cl = "\<lparr>Index = i, C = c, Name = Name_of (stripped t), PKGPath = PkgPath_of (stripped t)\<rparr>"
  let ?st1 = "st\<lparr>todo := rest, tasks := tasks st @ [(?cl, Closing)],
                 sentToClose := AList.update i ?cl (sentToClose st)\<rparr>"
  have s: "spawn st = Some ?st1"
    using Cons.prems(1) Cons.hyps(2) [symmetric] ic c
    by (simp add: spawn_def getPkgPath_Iface Let_def)
  have "rest = todo ?st1" by simp
  moreover have "status ?st1 = Populating" using Cons.prems(1) by simp
  moreover have "\<forall>ic \<in> set (todo ?st1). snd ic \<noteq> NilIface"
    using Cons.prems(2) Cons.hyps(2) [symmetric] by simp
  ultimately obtain st' where "exec (replicate (length (todo ?st1)) Spawn) ?st1 = Some st'"
    "status st' = Populating" "todo st' = []"
    using Cons.hyps(1) by blast
  with s Cons.hyps(2) [symmetric] show ?case by auto
qed

lemma set_ranged: "ic \<in> set (ranged xs) \<Longrightarrow> snd ic \<in> set xs"
  by (auto simp: ranged_def in_set_enumerate_eq)

text \<open>
  C9: for a batch without a nil interface value (on which \<^verbatim>\<open>getPkgPath\<close>
  panics) the population runs to its end; and at the end of the population of
  any batch, equal values or not, there are as many goroutines and as many map
  entries as positions, position \<open>i\<close> has its own \<^verbatim>\<open>closer\<close> with index \<open>i\<close>
  around the value at \<open>i\<close>, its own goroutine, and its own entry under key \<open>i\<close>.
\<close>

theorem every_position_wrapped:
  "((\<forall>c \<in> set closable. c \<noteq> NilIface) \<longrightarrow>
      (\<exists>st. exec (replicate (length closable) Spawn) (closeInMass lg closable) = Some st \<and>
         status st = Populating \<and> todo st = [])) \<and>
   (\<forall>as st. exec as (closeInMass lg closable) = Some st \<longrightarrow>
      status st = Populating \<longrightarrow> todo st = [] \<longrightarrow>
        length (tasks st) = length closable \<and>
        length (sentToClose st) = length closable \<and>
        (\<forall>i < length closable.
           Index (fst (tasks st ! i)) = int i \<and>
           C (fst (tasks st ! i)) = closable ! i \<and>
           getPkgPath (closable ! i) =
             Returns (Name (fst (tasks st ! i)), PKGPath (fst (tasks st ! i))) \<and>
           sentToClose st ! i = (int i, fst (tasks st ! i))))"
proof (intro conjI impI allI)
  assume nn: "\<forall>c \<in> set closable. c \<noteq> NilIface"
  let ?st0 = "closeInMass lg closable"
  have "status ?st0 = Populating" by (simp add: closeInMass_def)
  moreover have "\<forall>ic \<in> set (todo ?st0). snd ic \<noteq> NilIface"
    using nn set_ranged by (fastforce simp: closeInMass_def)
  ultimately have "\<exists>st'. exec (replicate (length (todo ?st0)) Spawn) ?st0 = Some st' \<and>
       status st' = Populating \<and> todo st' = []" by (rule population_completes)
  moreover have "length (todo ?st0) = length closable"
    by (simp add: closeInMass_def length_ranged)
  ultimately show "\<exists>st. exec (replicate (length closable) Spawn) ?st0 = Some st \<and>
         status st = Populating \<and> todo st = []" by simp
next
  fix as st
  assume r: "exec as (closeInMass lg closable) = Some st" and p: "status st = Populating"
    and t: "todo st = []"
  from r have inv: "mass_inv closable st" by (rule reachable_mass_inv)
  note pl = populated_length [OF inv p t]
  show "length (tasks st) = length closable" by (rule pl(1))
  show "length (sentToClose st) = length closable" by (rule pl(2))
  fix i assume i: "i < length closable"
  with inv pl(1) have w: "wraps closable i (fst (tasks st ! i))" by (simp add: mass_inv_def)
  then show "Index (fst (tasks st ! i)) = int i" by (simp add: wraps_def)
  from w show "C (fst (tasks st ! i)) = closable ! i" by (simp add: wraps_def)
  from w show "getPkgPath (closable ! i) =
      Returns (Name (fst (tasks st ! i)), PKGPath (fst (tasks st ! i)))"
    by (simp add: wraps_def)
  from w have "Index (fst (tasks st ! i)) = int i" by (simp add: wraps_def)
  with i pl(1,3) show "sentToClose st ! i = (int i, fst (tasks st ! i))" by simp
qed

theorem every_position_wrapped_witness:
  "file_a \<noteq> NilIface \<and>
   (\<exists>st. exec [Spawn, Spawn] (closeInMass ([] :: nat entry list) [file_a, file_a]) = Some st \<and>
      status st = Populating \<and> todo st = [] \<and> length (tasks st) = 2 \<and>
      Index (fst (tasks st ! 0)) = 0 \<and> C (fst (tasks st ! 0)) = file_a \<and>
      Index (fst (tasks st ! 1)) = 1 \<and> C (fst (tasks st ! 1)) = file_a \<and>
      sentToClose st ! 0 = (0, fst (tasks st ! 0)) \<and>
      sentToClose st ! 1 = (1, fst (tasks st ! 1)))"
proof -
  have nn: "\<forall>c \<in> set [file_a, file_a]. c \<noteq> NilIface" by (simp add: file_a_def)
  note w = every_position_wrapped [where closable = "[file_a, file_a]"
      and lg = "[] :: nat entry list"]
  from w nn obtain st where
    e: "exec (replicate (length [file_a, file_a]) Spawn)
          (closeInMass ([] :: nat entry list) [file_a, file_a]) = Some st"
    and p: "status st = Populating" and t: "todo st = []" by blast
  have r: "replicate (length [file_a, file_a]) Spawn = ([Spawn, Spawn] :: nat action list)"
    by (simp add: numeral_2_eq_2)
  from e r have e2: "exec [Spawn, Spawn] (closeInMass ([] :: nat entry list) [file_a, file_a]) = Some st"
    by simp
  from w e p t have all: "length (tasks st) = length [file_a, file_a] \<and>
     (\<forall>i < length [file_a, file_a].
           Index (fst (tasks st ! i)) = int i \<and>
           C (fst (tasks st ! i)) = [file_a, file_a] ! i \<and>
           getPkgPath ([file_a, file_a] ! i) =
             Returns (Name (fst (tasks st ! i)), PKGPath (fst (tasks st ! i))) \<and>
           sentToClose st ! i = (int i, fst (tasks st ! i)))" by blast
  then have a0: "Index (fst (tasks st ! 0)) = 0 \<and> C (fst (tasks st ! 0)) = file_a \<and>
      sentToClose st ! 0 = (0, fst (tasks st ! 0))" by auto
  from all have "1 < length [file_a, file_a] \<longrightarrow>
      Index (fst (tasks st ! 1)) = int 1 \<and> C (fst (tasks st ! 1)) = [file_a, file_a] ! 1 \<and>
      sentToClose st ! 1 = (int 1, fst (tasks st ! 1))" by blast
  then have a1: "Index (fst (tasks st ! 1)) = 1 \<and> C (fst (tasks st ! 1)) = file_a \<and>
      sentToClose st ! 1 = (1, fst (tasks st ! 1))" by simp
  from all have len: "length (tasks st) = 2" by simp
  from nn have "file_a \<noteq> NilIface" by simp
  with e2 p t len a0 a1 show ?thesis by blast
qed

subsection \<open>What a timeout reports\<close>

lemma mset_visit:
  "mset ord = mset [0..<length xs] \<Longrightarrow> mset (map (\<lambda>j. f (xs ! j)) ord) = image_mset f (mset xs)"
proof -
  assume a: "mset ord = mset [0..<length xs]"
  have "mset (map (\<lambda>j. f (xs ! j)) ord) = image_mset (\<lambda>j. f (xs ! j)) (mset ord)" by simp
  also have "\<dots> = mset (map (\<lambda>j. f (xs ! j)) [0..<length xs])" by (simp add: a)
  also have "map (\<lambda>j. f (xs ! j)) [0..<length xs] = map f xs"
    by (rule nth_equalityI) simp_all
  finally show ?thesis by simp
qed

text \<open>
  C1, as the claim states it, fails: the returned error does not identify the
  resources. Two batches that time out on different resources return the same
  error.
\<close>

theorem timeout_error_names_nothing:
  "map_option status (exec [Spawn, NewTimer, TimerFires [0]] (closeInMass ([] :: nat entry list) [file_a]))
     = Some (Returned (Some ''failed to close all objects'')) \<and>
   map_option status (exec [Spawn, NewTimer, TimerFires [0]] (closeInMass ([] :: nat entry list) [conn_b]))
     = Some (Returned (Some ''failed to close all objects'')) \<and>
   map_option unresolved (exec [Spawn, NewTimer, TimerFires [0]] (closeInMass ([] :: nat entry list) [file_a]))
     = Some [(''File'', ''os'')] \<and>
   map_option unresolved (exec [Spawn, NewTimer, TimerFires [0]] (closeInMass ([] :: nat entry list) [conn_b]))
     = Some [(''TCPConn'', ''net'')]"
  by (simp add: run_defs unresolved_def)

text \<open>
  C1, amended: when the timer case is taken while \<^verbatim>\<open>closeInMass\<close> is in its
  loop, the call logs one warning with the remaining count, then logs at error
  severity exactly one line "Failed to close: PKGPath/Name" for each entry
  still in \<open>sentToClose\<close>, in the order of the map iteration, and returns the
  error "failed to close all objects", which is the same for every batch. The
  entries still in \<open>sentToClose\<close> are the closers of the positions whose
  completion has not been received: those not sent yet and those waiting in
  the channel.
\<close>

theorem timeout_reports_pending:
  "exec as (closeInMass lg closable) = Some st \<Longrightarrow> status st = Looping \<Longrightarrow>
   mset ord = mset [0..<length (sentToClose st)] \<Longrightarrow>
     (\<exists>st' es. step (TimerFires ord) st = Some st' \<and>
        status st' = Returned (Some ''failed to close all objects'') \<and>
        sentToClose st' = sentToClose st \<and>
        logs st' = logs st
          @ [(Warn, [Num (count_var st), Str '' object(s) remaining but timer expired.''])]
          @ es \<and>
        mset es = image_mset failed_entry (mset (sentToClose st))) \<and>
     mset (map snd (sentToClose st)) = mset (buf (doneClosers st)) + mset (unsent (tasks st)) \<and>
     (\<forall>kc \<in> set (sentToClose st). \<exists>i. fst kc = int i \<and> wraps closable i (snd kc))"
proof -
  assume r: "exec as (closeInMass lg closable) = Some st" and l: "status st = Looping"
    and o: "mset ord = mset [0..<length (sentToClose st)]"
  from r have inv: "mass_inv closable st" by (rule reachable_mass_inv)
  let ?es = "map (\<lambda>j. failed_entry (sentToClose st ! j)) ord :: 'b entry list"
  let ?st' = "st\<lparr>logs := logs st
       @ [(Warn, [Num (count_var st), Str '' object(s) remaining but timer expired.''])]
       @ ?es,
     status := Returned (Some ''failed to close all objects'')\<rparr>"
  have s: "step (TimerFires ord) st = Some ?st'" using l o by (simp add: timer_fires_def)
  have m: "mset ?es = image_mset failed_entry (mset (sentToClose st))"
    using o by (rule mset_visit)
  have a: "\<exists>st' es. step (TimerFires ord) st = Some st' \<and>
        status st' = Returned (Some ''failed to close all objects'') \<and>
        sentToClose st' = sentToClose st \<and>
        logs st' = logs st
          @ [(Warn, [Num (count_var st), Str '' object(s) remaining but timer expired.''])]
          @ es \<and>
        mset es = image_mset failed_entry (mset (sentToClose st))"
    using s m by (intro exI [of _ ?st'] exI [of _ ?es]) simp
  have b: "mset (map snd (sentToClose st)) =
      mset (buf (doneClosers st)) + mset (unsent (tasks st))"
    using inv by (simp add: mass_inv_def)
  have c: "\<forall>kc \<in> set (sentToClose st). \<exists>i. fst kc = int i \<and> wraps closable i (snd kc)"
  proof
    fix kc assume "kc \<in> set (sentToClose st)"
    with inv obtain i where "i < length (tasks st)" "fst kc = int i"
      "snd kc = fst (tasks st ! i)" unfolding mass_inv_def by blast
    moreover with inv have "wraps closable i (fst (tasks st ! i))" by (simp add: mass_inv_def)
    ultimately show "\<exists>i. fst kc = int i \<and> wraps closable i (snd kc)" by auto
  qed
  from a b c show ?thesis by blast
qed

theorem timeout_reports_pending_witness:
  "\<exists>st. exec [Spawn, Spawn, NewTimer, CloseReturns 0 None, Send 0, Recv]
           (closeInMass ([] :: nat entry list) [file_a, conn_b]) = Some st \<and>
     status st = Looping \<and> mset [0] = mset [0..<length (sentToClose st)] \<and>
     (\<exists>st'. step (TimerFires [0]) st = Some st' \<and>
        status st' = Returned (Some ''failed to close all objects'') \<and>
        logs st' = [(Debug, [Num 1, Str '' object(s) left'']),
                    (Warn, [Num 1, Str '' object(s) remaining but timer expired.'']),
                    (Error, [Str ''Failed to close: '', Str ''net'', Str ''/'', Str ''TCPConn''])])"
proof -
  obtain st where e: "exec [Spawn, Spawn, NewTimer, CloseReturns 0 None, Send 0, Recv]
           (closeInMass ([] :: nat entry list) [file_a, conn_b]) = Some st"
    by (simp add: run_defs)
  from e have l: "status st = Looping" by (auto simp: run_defs)
  from e have o: "mset [0] = mset [0..<length (sentToClose st)]" by (auto simp: run_defs)
  from timeout_reports_pending [OF e l o]
  obtain st' where s: "step (TimerFires [0]) st = Some st'"
    and t: "status st' = Returned (Some ''failed to close all objects'')" by blast
  from e s have "logs st' = [(Debug, [Num 1, Str '' object(s) left'']),
                    (Warn, [Num 1, Str '' object(s) remaining but timer expired.'']),
                    (Error, [Str ''Failed to close: '', Str ''net'', Str ''/'', Str ''TCPConn''])]"
    by (auto simp: run_defs)
  with e l o s t show ?thesis by blast
qed

end
